theory Spec2Isabelle
  imports Main "HOL-Library.Char_ord" "HOL-Library.List_Lexorder"
begin

section \<open>Text classification notebook: corpus loader, vocabulary, embedding matrix\<close>

text \<open>
  The development follows the code cells of
  \<^verbatim>\<open>using-pre-trained-word-embeddings-in-a-keras-model.ipynb\<close>.
  A Python \<^verbatim>\<open>str\<close> is a \<^typ>\<open>string\<close> (one \<^typ>\<open>char\<close> per code point; the corpus is
  read as latin-1, so every code point is below 256). Python integers are \<^typ>\<open>int\<close>.
  Exceptions are values of the type \<open>error\<close>; a cell that can raise returns
  \<open>error + result\<close> with \<open>Inl\<close> for the exception.
\<close>

datatype error =
    IndexError
  | ValueError_convert string
  | ValueError_broadcast nat nat
  | IsADirectoryError string

text \<open>
  \<open>ValueError_convert tok\<close> is numpy's "could not convert string to float: tok";
  \<open>ValueError_broadcast k d\<close> is its "could not broadcast input array from shape (k,)
  into shape (d,)".
\<close>

subsection \<open>Header stripping (cell 5, lines 115--118)\<close>

definition newline :: char where
  "newline = CHR 0x0A"

text \<open>Python's \<^verbatim>\<open>t.find(sub)\<close>: the lowest offset at which \<^verbatim>\<open>sub\<close> occurs, \<open>-1\<close> when
  it does not occur. \<open>find_from\<close> scans from offset \<open>k\<close> of the original text.\<close>

fun find_from :: "string \<Rightarrow> string \<Rightarrow> nat \<Rightarrow> int" where
  "find_from sub [] k = (if sub = [] then int k else - 1)"
| "find_from sub (c # cs) k =
     (if take (length sub) (c # cs) = sub then int k else find_from sub cs (Suc k))"

definition str_find :: "string \<Rightarrow> string \<Rightarrow> int" where
  "str_find t sub = find_from sub t 0"

text \<open>
  \<^verbatim>\<open>i = t.find('\n\n')  # skip header\<close>
  \<^verbatim>\<open>if 0 < i: t = t[i:]\<close>
\<close>

definition strip_header :: "string \<Rightarrow> string" where
  "strip_header t =
     (let i = str_find t [newline, newline]
      in if 0 < i then drop (nat i) t else t)"

subsection \<open>Embedding matrix (cell 9, lines 220--228)\<close>

text \<open>
  The module-level names the cell reads and writes. \<open>word_index\<close> is the dictionary's
  \<^verbatim>\<open>items()\<close> in iteration order, \<open>embeddings_index\<close> a dictionary from words to
  coefficient vectors, \<open>embedding_matrix\<close> a two-dimensional array as the list of its rows.
  The coefficients are of any type with a zero; the cell only copies them.
  \<^verbatim>\<open>MAX_NUM_WORDS\<close> and \<^verbatim>\<open>EMBEDDING_DIM\<close> (20000 and 100 in the notebook) are the
  parameters \<open>N\<close> and \<open>D\<close>.
\<close>

record 'a globals =
  word_index :: "(string \<times> int) list"
  embeddings_index :: "string \<rightharpoonup> 'a list"
  num_words :: nat
  embedding_matrix :: "'a list list"

text \<open>
  \<^verbatim>\<open>embedding_matrix[i] = embedding_vector\<close> on a numpy array: a negative \<open>i\<close> counts from
  the end, an \<open>i\<close> outside \<open>[-n, n)\<close> raises IndexError; the vector must have the row's
  length, or length 1 (it is then broadcast over the row), else ValueError.
\<close>

definition set_row :: "'a list list \<Rightarrow> int \<Rightarrow> 'a list \<Rightarrow> error + 'a list list" where
  "set_row M i v =
     (let n = int (length M); j = (if i < 0 then i + n else i)
      in if j < 0 \<or> n \<le> j then Inl IndexError
         else let d = length (M ! nat j)
              in if length v = d then Inr (M[nat j := v])
                 else if length v = 1 then Inr (M[nat j := replicate d (hd v)])
                 else Inl (ValueError_broadcast (length v) d))"

text \<open>
  \<^verbatim>\<open>for word, i in word_index.items():\<close>
  \<^verbatim>\<open>    if i >= MAX_NUM_WORDS: continue\<close>
  \<^verbatim>\<open>    embedding_vector = embeddings_index.get(word)\<close>
  \<^verbatim>\<open>    if embedding_vector is not None: embedding_matrix[i] = embedding_vector\<close>
\<close>

fun fill_rows :: "nat \<Rightarrow> (string \<times> int) list \<Rightarrow> 'a globals \<Rightarrow> error + 'a globals" where
  "fill_rows N [] g = Inr g"
| "fill_rows N ((word, i) # items) g =
     (if int N \<le> i then fill_rows N items g
      else case embeddings_index g word of
             None \<Rightarrow> fill_rows N items g
           | Some embedding_vector \<Rightarrow>
               (case set_row (embedding_matrix g) i embedding_vector of
                  Inl e \<Rightarrow> Inl e
                | Inr M \<Rightarrow> fill_rows N items (g\<lparr>embedding_matrix := M\<rparr>)))"

text \<open>
  \<^verbatim>\<open>num_words = min(MAX_NUM_WORDS, len(word_index) + 1)\<close>
  \<^verbatim>\<open>embedding_matrix = np.zeros((num_words, EMBEDDING_DIM))\<close>
  followed by the loop.
\<close>

definition build_embedding_matrix :: "nat \<Rightarrow> nat \<Rightarrow> 'a::zero globals \<Rightarrow> error + 'a globals" where
  "build_embedding_matrix N D g =
     (let g1 = g\<lparr>num_words := min N (length (word_index g) + 1)\<rparr>;
          g2 = g1\<lparr>embedding_matrix := replicate (num_words g1) (replicate D 0)\<rparr>
      in fill_rows N (word_index g2) g2)"

text \<open>The row indices at which the loop executes its assignment, in order: the pairs that
  pass both guards.\<close>

definition written_rows :: "nat \<Rightarrow> (string \<rightharpoonup> 'a list) \<Rightarrow> (string \<times> int) list \<Rightarrow> int list" where
  "written_rows N ei items = [i. (word, i) \<leftarrow> items, \<not> int N \<le> i, ei word \<noteq> None]"

text \<open>
  The data model's vocabulary: a dictionary (distinct words) whose indices are exactly
  \<open>1, \<dots>, V\<close> for its \<open>V\<close> words, each used once.
\<close>

definition vocabulary :: "(string \<times> int) list \<Rightarrow> bool" where
  "vocabulary wi \<longleftrightarrow> distinct (map fst wi) \<and> sort (map snd wi) = [1..int (length wi)]"

text \<open>The data model's embedding index of dimension \<open>D\<close>: every vector has \<open>D\<close> entries.\<close>

definition dimension :: "nat \<Rightarrow> (string \<rightharpoonup> 'a list) \<Rightarrow> bool" where
  "dimension D ei \<longleftrightarrow> (\<forall>w v. ei w = Some v \<longrightarrow> length v = D)"

text \<open>Every index that passes the loop's guard \<open>i < N\<close> is a row \<open>0 \<le> i < n\<close>.\<close>

definition in_range :: "nat \<Rightarrow> nat \<Rightarrow> (string \<times> int) list \<Rightarrow> bool" where
  "in_range N n items \<longleftrightarrow> (\<forall>(w, i) \<in> set items. i < int N \<longrightarrow> 0 \<le> i \<and> i < int n)"

text \<open>The largest index of a vocabulary mapping (0 for the empty one).\<close>

definition largest_index :: "(string \<times> int) list \<Rightarrow> int" where
  "largest_index wi = fold max (map snd wi) 0"

subsection \<open>Pre-trained embedding index (cell 8, lines 196--202)\<close>

text \<open>
  Python's \<^verbatim>\<open>str.isspace\<close> on one code point below 256: tab to carriage return, the
  separators \<open>0x1C\<close> to \<open>0x1F\<close>, space, \<open>0x85\<close> and \<open>0xA0\<close>.
\<close>

definition isspace :: "char \<Rightarrow> bool" where
  "isspace c \<longleftrightarrow>
     (let n = (of_char c :: nat)
      in (9 \<le> n \<and> n \<le> 13) \<or> (28 \<le> n \<and> n \<le> 32) \<or> n = 133 \<or> n = 160)"

text \<open>
  \<^verbatim>\<open>line.split()\<close>: the maximal runs of non-whitespace characters, in order.
  \<open>split_from cur s\<close> has read the characters \<open>cur\<close> of the current token.
\<close>

fun split_from :: "string \<Rightarrow> string \<Rightarrow> string list" where
  "split_from cur [] = (if cur = [] then [] else [cur])"
| "split_from cur (c # cs) =
     (if isspace c then (if cur = [] then split_from [] cs else cur # split_from [] cs)
      else split_from (cur @ [c]) cs)"

definition str_split :: "string \<Rightarrow> string list" where
  "str_split s = split_from [] s"

text \<open>
  \<^verbatim>\<open>np.asarray(values[1:], dtype='float32')\<close>: every token is converted to a float, in
  order; the first token that is not a number raises ValueError. The conversion of one
  token is numpy's and is the parameter \<open>to_float\<close> (\<open>None\<close> when the token is not a
  number).
\<close>

fun asarray :: "(string \<Rightarrow> 'a option) \<Rightarrow> string list \<Rightarrow> error + 'a list" where
  "asarray to_float [] = Inr []"
| "asarray to_float (tok # toks) =
     (case to_float tok of
        None \<Rightarrow> Inl (ValueError_convert tok)
      | Some x \<Rightarrow>
          (case asarray to_float toks of
             Inl e \<Rightarrow> Inl e
           | Inr xs \<Rightarrow> Inr (x # xs)))"

text \<open>
  \<^verbatim>\<open>for line in f:\<close>
  \<^verbatim>\<open>    values = line.split()\<close>
  \<^verbatim>\<open>    word = values[0]\<close>
  \<^verbatim>\<open>    coefs = np.asarray(values[1:], dtype='float32')\<close>
  \<^verbatim>\<open>    embeddings_index[word] = coefs\<close>
  The file is the list of its lines. \<^verbatim>\<open>values[0]\<close> raises IndexError on a line without
  a token.
\<close>

fun read_embeddings ::
  "(string \<Rightarrow> 'a option) \<Rightarrow> string list \<Rightarrow> (string \<rightharpoonup> 'a list) \<Rightarrow> error + (string \<rightharpoonup> 'a list)" where
  "read_embeddings to_float [] index = Inr index"
| "read_embeddings to_float (line # lines) index =
     (case str_split line of
        [] \<Rightarrow> Inl IndexError
      | word # values \<Rightarrow>
          (case asarray to_float values of
             Inl e \<Rightarrow> Inl e
           | Inr coefs \<Rightarrow> read_embeddings to_float lines (index(word \<mapsto> coefs))))"

definition parse_embeddings ::
  "(string \<Rightarrow> 'a option) \<Rightarrow> string list \<Rightarrow> error + (string \<rightharpoonup> 'a list)" where
  "parse_embeddings to_float lines = read_embeddings to_float lines Map.empty"

text \<open>A line the loop accepts: it has a word, and every token after it is a number.\<close>

definition well_formed :: "(string \<Rightarrow> 'a option) \<Rightarrow> string \<Rightarrow> bool" where
  "well_formed to_float line \<longleftrightarrow>
     (case str_split line of
        [] \<Rightarrow> False
      | word # values \<Rightarrow> list_all (\<lambda>tok. to_float tok \<noteq> None) values)"

text \<open>
  A conversion for concrete runs: a token of ASCII decimal digits is the number it
  denotes, as for \<^verbatim>\<open>float\<close>. It is applied below to digit tokens and to the token
  \<^verbatim>\<open>x\<close> only (which \<^verbatim>\<open>float\<close> rejects too).
\<close>

fun decimal_from :: "int \<Rightarrow> string \<Rightarrow> int option" where
  "decimal_from acc [] = Some acc"
| "decimal_from acc (c # cs) =
     (let n = (of_char c :: nat)
      in if 48 \<le> n \<and> n \<le> 57 then decimal_from (10 * acc + int (n - 48)) cs else None)"

definition decimal :: "string \<Rightarrow> int option" where
  "decimal tok = (if tok = [] then None else decimal_from 0 tok)"

subsection \<open>Corpus loader (cell 5, lines 102--120)\<close>

text \<open>
  The corpus directory as the loader sees it: \<^verbatim>\<open>os.listdir\<close> gives the names of a
  directory's entries (in no particular order), an entry is a file with its text or a
  directory with its own entries.
\<close>

datatype node = File string | Dir "(string \<times> node) list"

text \<open>The three module-level names the cell fills.\<close>

record corpus =
  texts :: "string list"
  labels_index :: "(string \<times> nat) list"
  labels :: "nat list"

text \<open>
  \<^verbatim>\<open>fname.isdigit()\<close>: at least one character, and every character a digit. Below code
  point 256 the digits are \<^verbatim>\<open>0\<close> to \<^verbatim>\<open>9\<close> and the superscripts \<open>0xB2\<close>, \<open>0xB3\<close>, \<open>0xB9\<close>.
\<close>

definition isdigit :: "string \<Rightarrow> bool" where
  "isdigit s \<longleftrightarrow>
     s \<noteq> [] \<and>
     list_all (\<lambda>c. let n = (of_char c :: nat)
                   in (48 \<le> n \<and> n \<le> 57) \<or> n = 178 \<or> n = 179 \<or> n = 185) s"

text \<open>\<^verbatim>\<open>d[k] = v\<close> on a dictionary kept as the list of its items in insertion order.\<close>

fun dict_set :: "'k \<Rightarrow> 'v \<Rightarrow> ('k \<times> 'v) list \<Rightarrow> ('k \<times> 'v) list" where
  "dict_set k v [] = [(k, v)]"
| "dict_set k v ((k', v') # kvs) =
     (if k' = k then (k, v) # kvs else (k', v') # dict_set k v kvs)"

text \<open>
  \<^verbatim>\<open>for fname in sorted(os.listdir(path)):\<close>
  \<^verbatim>\<open>    if fname.isdigit():\<close>
  \<^verbatim>\<open>        with open(fpath, **args) as f:\<close>
  \<^verbatim>\<open>            t = f.read(); i = t.find('\n\n'); if 0 < i: t = t[i:]\<close>
  \<^verbatim>\<open>            texts.append(t)\<close>
  \<^verbatim>\<open>        labels.append(label_id)\<close>
  over the entries already sorted by name. \<^verbatim>\<open>open\<close> raises on a directory.
\<close>

fun read_files :: "nat \<Rightarrow> (string \<times> node) list \<Rightarrow> corpus \<Rightarrow> error + corpus" where
  "read_files label_id [] s = Inr s"
| "read_files label_id ((fname, f) # files) s =
     (if isdigit fname then
        (case f of
           Dir _ \<Rightarrow> Inl (IsADirectoryError fname)
         | File t \<Rightarrow>
             read_files label_id files
               (s\<lparr>texts := texts s @ [strip_header t], labels := labels s @ [label_id]\<rparr>))
      else read_files label_id files s)"

text \<open>
  \<^verbatim>\<open>for name in sorted(os.listdir(TEXT_DATA_DIR)):\<close>
  \<^verbatim>\<open>    if os.path.isdir(path):\<close>
  \<^verbatim>\<open>        label_id = len(labels_index)\<close>
  \<^verbatim>\<open>        labels_index[name] = label_id\<close>
  followed by the loop over the directory's files.
\<close>

fun load_dirs :: "(string \<times> node) list \<Rightarrow> corpus \<Rightarrow> error + corpus" where
  "load_dirs [] s = Inr s"
| "load_dirs ((name, File _) # rest) s = load_dirs rest s"
| "load_dirs ((name, Dir files) # rest) s =
     (let label_id = length (labels_index s);
          s1 = s\<lparr>labels_index := dict_set name label_id (labels_index s)\<rparr>
      in case read_files label_id (sort_key fst files) s1 of
           Inl e \<Rightarrow> Inl e
         | Inr s2 \<Rightarrow> load_dirs rest s2)"

definition load_corpus :: "(string \<times> node) list \<Rightarrow> error + corpus" where
  "load_corpus root =
     load_dirs (sort_key fst root) \<lparr>texts = [], labels_index = [], labels = []\<rparr>"

text \<open>
  What the loader is meant to produce, for comparison: the names of the entries that are
  directories, in the order given; the stripped texts of the digit-named files of a
  directory; and the samples (text, label id) of a list of entries whose directories are
  numbered from \<open>k\<close>.
\<close>

fun is_dir :: "node \<Rightarrow> bool" where
  "is_dir (Dir _) = True"
| "is_dir (File _) = False"

definition subdirs :: "(string \<times> node) list \<Rightarrow> string list" where
  "subdirs entries = map fst (filter (\<lambda>(name, f). is_dir f) entries)"

fun digit_files :: "(string \<times> node) list \<Rightarrow> string list" where
  "digit_files [] = []"
| "digit_files ((fname, File t) # files) =
     (if isdigit fname then strip_header t # digit_files files else digit_files files)"
| "digit_files ((fname, Dir _) # files) = digit_files files"

fun samples :: "nat \<Rightarrow> (string \<times> node) list \<Rightarrow> (string \<times> nat) list" where
  "samples k [] = []"
| "samples k ((name, File _) # rest) = samples k rest"
| "samples k ((name, Dir files) # rest) =
     map (\<lambda>t. (t, k)) (digit_files (sort_key fst files)) @ samples (Suc k) rest"

text \<open>Every digit-named entry of every subdirectory is a file: \<^verbatim>\<open>open\<close> succeeds.\<close>

fun readable_files :: "(string \<times> node) list \<Rightarrow> bool" where
  "readable_files [] = True"
| "readable_files ((fname, f) # files) = ((isdigit fname \<longrightarrow> \<not> is_dir f) \<and> readable_files files)"

fun readable :: "(string \<times> node) list \<Rightarrow> bool" where
  "readable [] = True"
| "readable ((name, File _) # rest) = readable rest"
| "readable ((name, Dir files) # rest) = (readable_files files \<and> readable rest)"

subsection \<open>Vocabulary builder and sequence encoder (cell 6, lines 148--155)\<close>

text \<open>
  The notebook builds the vocabulary and encodes the texts by calling the Keras library
  (\<^verbatim>\<open>Tokenizer(num_words=MAX_NUM_WORDS)\<close>, \<^verbatim>\<open>fit_on_texts\<close>, \<^verbatim>\<open>texts_to_sequences\<close>,
  \<^verbatim>\<open>word_index\<close>, \<^verbatim>\<open>pad_sequences(sequences, maxlen=MAX_SEQUENCE_LENGTH)\<close>); the bodies of
  these routines are not part of the notebook. They are modelled from the specification,
  sections 4.2 and 4.3. The tokenization rule, which the specification leaves open, is the
  parameter \<open>tokenize\<close>.
\<close>

text \<open>The notebook's constants (cell 2, lines 54--55).\<close>

definition MAX_SEQUENCE_LENGTH :: nat where
  "MAX_SEQUENCE_LENGTH = 1000"

definition MAX_NUM_WORDS :: nat where
  "MAX_NUM_WORDS = 20000"

text \<open>
  Modelled from the spec: the word counter of the vocabulary builder (the body of
  \<^verbatim>\<open>Tokenizer.fit_on_texts\<close> is missing). "Counts word frequency across the whole corpus":
  the counts are kept per word in first-seen order.
\<close>

fun count_word :: "string \<Rightarrow> (string \<times> nat) list \<Rightarrow> (string \<times> nat) list" where
  "count_word w [] = [(w, 1)]"
| "count_word w ((w', c) # rest) =
     (if w' = w then (w', Suc c) # rest else (w', c) # count_word w rest)"

text \<open>
  Modelled from the spec: the word counts of a whole corpus, given as the sequence of its
  tokens (part of the missing body of \<^verbatim>\<open>Tokenizer.fit_on_texts\<close>).
\<close>

definition word_counts :: "string list \<Rightarrow> (string \<times> nat) list" where
  "word_counts toks = fold count_word toks []"

text \<open>
  Modelled from the spec: the vocabulary builder (the body of \<^verbatim>\<open>Tokenizer.fit_on_texts\<close>
  and of \<^verbatim>\<open>Tokenizer.word_index\<close> is missing). "Assigns indices 1.. in descending frequency
  order (ties broken by first-seen order)": a stable sort of the counted words by
  descending count, numbered from 1. The mapping is "full, unbounded": the maximum
  vocabulary size is not an argument.
\<close>

definition fit_on_texts :: "(string \<Rightarrow> string list) \<Rightarrow> string list \<Rightarrow> (string \<times> int) list" where
  "fit_on_texts tokenize txts =
     (let wcounts = word_counts (concat (map tokenize txts));
          sorted_voc = map fst (sort_key (\<lambda>(w, c). - int c) wcounts)
      in zip sorted_voc [1..int (length sorted_voc)])"

text \<open>
  Modelled from the spec: the first half of the sequence encoder (the body of
  \<^verbatim>\<open>Tokenizer.texts_to_sequences\<close> is missing). "Map each token to its vocabulary index; drop
  tokens whose index is \<open>\<ge> N\<close> (out-of-budget) or absent from the vocabulary."
\<close>

definition texts_to_sequence ::
  "(string \<Rightarrow> string list) \<Rightarrow> (string \<times> int) list \<Rightarrow> nat \<Rightarrow> string \<Rightarrow> int list" where
  "texts_to_sequence tokenize wi N txt =
     filter (\<lambda>i. i < int N) (List.map_filter (map_of wi) (tokenize txt))"

text \<open>
  Modelled from the spec: the second half of the sequence encoder (the body of
  \<^verbatim>\<open>pad_sequences\<close> is missing). "If the resulting sequence has fewer than L elements,
  left-pad with 0. If more than L, truncate by keeping the last L elements (drop from the
  front)."
\<close>

definition pad_sequence :: "nat \<Rightarrow> int list \<Rightarrow> int list" where
  "pad_sequence L xs =
     (if length xs < L then replicate (L - length xs) 0 @ xs
      else if L < length xs then drop (length xs - L) xs
      else xs)"

text \<open>
  Modelled from the spec: the sequence encoder as a whole (the notebook's
  \<^verbatim>\<open>pad_sequences(tokenizer.texts_to_sequences(texts), maxlen=MAX_SEQUENCE_LENGTH)\<close>, for
  one text): "integer sequence of exactly length L".
\<close>

definition encode ::
  "(string \<Rightarrow> string list) \<Rightarrow> (string \<times> int) list \<Rightarrow> nat \<Rightarrow> nat \<Rightarrow> string \<Rightarrow> int list" where
  "encode tokenize wi N L txt = pad_sequence L (texts_to_sequence tokenize wi N txt)"

text \<open>The distinct words of a token sequence, in the order of their first occurrence.\<close>

fun first_seen :: "string list \<Rightarrow> string list" where
  "first_seen [] = []"
| "first_seen (w # ws) = w # filter (\<lambda>x. x \<noteq> w) (first_seen ws)"

section \<open>Properties\<close>

subsection \<open>Header stripping\<close>

lemma find_from_none:
  "(\<forall>j. take (length sub) (drop j t) \<noteq> sub) \<Longrightarrow> find_from sub t k = - 1"
proof (induction t arbitrary: k)
  case Nil
  then show ?case by (cases sub) auto
next
  case (Cons c cs)
  have here: "take (length sub) (c # cs) \<noteq> sub"
    using Cons.prems [rule_format, of 0] by simp
  have later: "\<forall>j. take (length sub) (drop j cs) \<noteq> sub"
  proof
    fix j show "take (length sub) (drop j cs) \<noteq> sub"
      using Cons.prems [rule_format, of "Suc j"] by simp
  qed
  from here Cons.IH [OF later] show ?case by simp
qed

lemma find_from_first:
  "take (length sub) (drop i t) = sub \<Longrightarrow> i \<le> length t
   \<Longrightarrow> (\<forall>j<i. take (length sub) (drop j t) \<noteq> sub)
   \<Longrightarrow> find_from sub t k = int (k + i)"
proof (induction t arbitrary: k i)
  case Nil
  then show ?case by simp
next
  case (Cons c cs)
  show ?case
  proof (cases i)
    case 0
    with Cons.prems show ?thesis by simp
  next
    case (Suc i')
    have here: "take (length sub) (c # cs) \<noteq> sub"
      using Cons.prems(3) [rule_format, of 0] Suc by simp
    have at: "take (length sub) (drop i' cs) = sub"
      using Cons.prems(1) Suc by simp
    have le: "i' \<le> length cs"
      using Cons.prems(2) Suc by simp
    have before: "\<forall>j<i'. take (length sub) (drop j cs) \<noteq> sub"
    proof (intro allI impI)
      fix j assume "j < i'"
      then have "Suc j < i" using Suc by simp
      from Cons.prems(3) [rule_format, OF this]
      show "take (length sub) (drop j cs) \<noteq> sub" by simp
    qed
    from Cons.IH [OF at le before, of "Suc k"] here Suc show ?thesis by simp
  qed
qed

lemma find_double_newline_none:
  "(\<forall>j. take 2 (drop j t) \<noteq> [newline, newline])
   \<Longrightarrow> find_from [newline, newline] t k = - 1"
  using find_from_none [of "[newline, newline]" t k] by (simp add: numeral_2_eq_2)

lemma find_double_newline_first:
  "take 2 (drop i t) = [newline, newline] \<Longrightarrow> i \<le> length t
   \<Longrightarrow> (\<forall>j<i. take 2 (drop j t) \<noteq> [newline, newline])
   \<Longrightarrow> find_from [newline, newline] t k = int (k + i)"
  using find_from_first [of "[newline, newline]" i t k] by (simp add: numeral_2_eq_2)

lemma double_newline_within:
  "take 2 (drop i t) = [newline, newline] \<Longrightarrow> i \<le> length t"
  by (cases "i \<le> length t") auto

text \<open>
  C5. The loader looks for the first double newline of the file text. When there is none
  the text is kept as it is; when the first one is at a positive offset \<open>i\<close> the text
  before offset \<open>i\<close> is discarded and the double newline itself is kept (at offset 0
  nothing precedes it and the text is unchanged). For the text
  "Header line\n\nBody text" the loader keeps "\n\nBody text".
\<close>

theorem strip_header_first_double_newline:
  "((\<forall>j. take 2 (drop j t) \<noteq> [newline, newline]) \<longrightarrow> strip_header t = t)
   \<and> (take 2 (drop i t) = [newline, newline]
        \<and> (\<forall>j<i. take 2 (drop j t) \<noteq> [newline, newline]) \<and> 0 < i
       \<longrightarrow> strip_header t = drop i t)
   \<and> (take 2 t = [newline, newline] \<longrightarrow> strip_header t = t)
   \<and> strip_header (''Header line'' @ [newline, newline] @ ''Body text'')
       = [newline, newline] @ ''Body text''"
proof (intro conjI impI)
  assume "\<forall>j. take 2 (drop j t) \<noteq> [newline, newline]"
  then have "find_from [newline, newline] t 0 = - 1"
    by (rule find_double_newline_none)
  then show "strip_header t = t"
    by (simp add: strip_header_def str_find_def)
next
  assume a: "take 2 (drop i t) = [newline, newline]
    \<and> (\<forall>j<i. take 2 (drop j t) \<noteq> [newline, newline]) \<and> 0 < i"
  then have "i \<le> length t" using double_newline_within by blast
  with a have "find_from [newline, newline] t 0 = int (0 + i)"
    using find_double_newline_first [of i t 0] by simp
  with a show "strip_header t = drop i t"
    by (simp add: strip_header_def str_find_def)
next
  assume "take 2 t = [newline, newline]"
  then have "find_from [newline, newline] t 0 = int (0 + 0)"
    using find_double_newline_first [of 0 t 0] by simp
  then show "strip_header t = t"
    by (simp add: strip_header_def str_find_def)
next
  show "strip_header (''Header line'' @ [newline, newline] @ ''Body text'')
       = [newline, newline] @ ''Body text''"
    by (simp add: strip_header_def str_find_def newline_def)
qed

theorem strip_header_first_double_newline_witness:
  "take 2 (drop 11 (''Header line'' @ [newline, newline] @ ''Body text'')) = [newline, newline]
   \<and> (\<forall>j. \<not> (j < 11 \<and> take 2 (drop j (''Header line'' @ [newline, newline] @ ''Body text''))
          = [newline, newline]))
   \<and> (0::nat) < 11
   \<and> strip_header (''Header line'' @ [newline, newline] @ ''Body text'')
       = drop 11 (''Header line'' @ [newline, newline] @ ''Body text'')
   \<and> (\<forall>j. take 2 (drop j ''no header'') \<noteq> [newline, newline])
   \<and> strip_header ''no header'' = ''no header''
   \<and> take 2 ([newline, newline] @ ''x'') = [newline, newline]
   \<and> strip_header ([newline, newline] @ ''x'') = [newline, newline] @ ''x''"
proof -
  let ?t = "''Header line'' @ [newline, newline] @ ''Body text''"
  have at: "take 2 (drop 11 ?t) = [newline, newline]" by simp
  have before: "\<forall>j<11. take 2 (drop j ?t) \<noteq> [newline, newline]"
    by (simp add: numeral_eq_Suc less_Suc_eq newline_def)
  have "newline \<notin> set ''no header''"
    by (simp add: newline_def)
  then have none: "\<forall>j. take 2 (drop j ''no header'') \<noteq> [newline, newline]"
    by (metis in_set_dropD in_set_takeD list.set_intros(1))
  have zero: "take 2 ([newline, newline] @ ''x'') = [newline, newline]" by simp
  from strip_header_first_double_newline [of ?t 11] at before
  have r1: "strip_header ?t = drop 11 ?t" by simp
  from strip_header_first_double_newline [of "''no header''" 0] none
  have r2: "strip_header ''no header'' = ''no header''" by blast
  from strip_header_first_double_newline [of "[newline, newline] @ ''x''" 0] zero
  have r3: "strip_header ([newline, newline] @ ''x'') = [newline, newline] @ ''x''" by blast
  from before have before': "\<forall>j. \<not> (j < 11 \<and> take 2 (drop j ?t) = [newline, newline])"
    by blast
  from at before' none zero r1 r2 r3 show ?thesis by simp
qed

subsection \<open>Embedding matrix\<close>

lemma set_row_length: "set_row M i v = Inr M' \<Longrightarrow> length M' = length M"
  by (auto simp: set_row_def Let_def split: if_splits)

lemma set_row_in_range:
  "0 \<le> i \<Longrightarrow> i < int (length M) \<Longrightarrow> length v = length (M ! nat i)
   \<Longrightarrow> set_row M i v = Inr (M[nat i := v])"
  by (simp add: set_row_def Let_def)

lemma set_row_no_IndexError:
  "0 \<le> i \<Longrightarrow> i < int (length M) \<Longrightarrow> set_row M i v \<noteq> Inl IndexError"
  by (simp add: set_row_def Let_def)

lemma written_rows_Cons:
  "written_rows N ei ((w, i) # items) =
     (if \<not> int N \<le> i \<and> ei w \<noteq> None then i # written_rows N ei items
      else written_rows N ei items)"
  by (simp add: written_rows_def)

lemma written_rows_Nil: "written_rows N ei [] = []"
  by (simp add: written_rows_def)

lemma set_written_rows:
  "set (written_rows N ei items) = {i. \<exists>w. (w, i) \<in> set items \<and> i < int N \<and> ei w \<noteq> None}"
  by (auto simp: written_rows_def)

lemma fill_rows_fields:
  "fill_rows N items g = Inr g' \<Longrightarrow>
     word_index g' = word_index g \<and> embeddings_index g' = embeddings_index g
     \<and> num_words g' = num_words g \<and> length (embedding_matrix g') = length (embedding_matrix g)"
proof (induction N items g rule: fill_rows.induct)
  case (1 N g)
  then show ?case by simp
next
  case (2 N word i items g)
  then show ?case
    by (auto split: if_splits option.splits sum.splits dest: set_row_length)
qed


lemma in_range_Cons:
  "in_range N n ((w, i) # items) \<longleftrightarrow> (i < int N \<longrightarrow> 0 \<le> i \<and> i < int n) \<and> in_range N n items"
  by (simp add: in_range_def)

lemma fill_rows_no_IndexError:
  "in_range N (length (embedding_matrix g)) items \<Longrightarrow> fill_rows N items g \<noteq> Inl IndexError"
proof (induction N items g rule: fill_rows.induct)
  case (1 N g)
  then show ?case by simp
next
  case (2 N word i items g)
  from "2.prems" have rest: "in_range N (length (embedding_matrix g)) items"
    and here: "i < int N \<longrightarrow> 0 \<le> i \<and> i < int (length (embedding_matrix g))"
    by (simp_all add: in_range_Cons)
  show ?case
  proof (cases "int N \<le> i")
    case True
    with "2.IH"(1) rest show ?thesis by simp
  next
    case False
    note small = this
    show ?thesis
    proof (cases "embeddings_index g word")
      case None
      with small "2.IH"(2) rest show ?thesis by simp
    next
      case (Some v)
      show ?thesis
      proof (cases "set_row (embedding_matrix g) i v")
        case (Inl e)
        with small here have "e \<noteq> IndexError"
          using set_row_no_IndexError [of i "embedding_matrix g" v] by auto
        with small Some Inl show ?thesis by simp
      next
        case (Inr M)
        then have "length M = length (embedding_matrix g)" by (rule set_row_length)
        with rest have "in_range N (length (embedding_matrix (g\<lparr>embedding_matrix := M\<rparr>))) items"
          by simp
        from "2.IH"(3) [OF small Some Inr this] small Some Inr show ?thesis by simp
      qed
    qed
  qed
qed

lemma fill_rows_total:
  "in_range N (length (embedding_matrix g)) items
   \<Longrightarrow> dimension D (embeddings_index g)
   \<Longrightarrow> \<forall>r \<in> set (embedding_matrix g). length r = D
   \<Longrightarrow> \<exists>g'. fill_rows N items g = Inr g' \<and> (\<forall>r \<in> set (embedding_matrix g'). length r = D)"
proof (induction N items g rule: fill_rows.induct)
  case (1 N g)
  then show ?case by simp
next
  case (2 N word i items g)
  from "2.prems"(1) have rest: "in_range N (length (embedding_matrix g)) items"
    and here: "i < int N \<longrightarrow> 0 \<le> i \<and> i < int (length (embedding_matrix g))"
    by (simp_all add: in_range_Cons)
  show ?case
  proof (cases "int N \<le> i")
    case True
    with "2.IH"(1) [OF True rest "2.prems"(2,3)] show ?thesis by simp
  next
    case False
    note small = this
    show ?thesis
    proof (cases "embeddings_index g word")
      case None
      with small "2.IH"(2) [OF small None rest "2.prems"(2,3)] show ?thesis by simp
    next
      case (Some v)
      let ?M = "embedding_matrix g"
      from Some "2.prems"(2) have lv: "length v = D" by (simp add: dimension_def)
      from small here have i: "0 \<le> i" "i < int (length ?M)" by auto
      then have "?M ! nat i \<in> set ?M" by simp
      with "2.prems"(3) have "length (?M ! nat i) = D" by blast
      with lv i have sr: "set_row ?M i v = Inr (?M[nat i := v])"
        by (simp add: set_row_in_range)
      let ?g = "g\<lparr>embedding_matrix := ?M[nat i := v]\<rparr>"
      have a: "in_range N (length (embedding_matrix ?g)) items" using rest by simp
      have b: "dimension D (embeddings_index ?g)" using "2.prems"(2) by simp
      have c: "\<forall>r \<in> set (embedding_matrix ?g). length r = D"
        using "2.prems"(3) lv by (auto dest: subsetD [OF set_update_subset_insert])
      from "2.IH"(3) [OF small Some sr a b c] small Some sr show ?thesis by simp
    qed
  qed
qed

lemma fill_rows_unwritten:
  "fill_rows N items g = Inr g' \<Longrightarrow> \<forall>(w, i) \<in> set items. 0 \<le> i
   \<Longrightarrow> int k \<notin> set (written_rows N (embeddings_index g) items)
   \<Longrightarrow> embedding_matrix g' ! k = embedding_matrix g ! k"
proof (induction N items g rule: fill_rows.induct)
  case (1 N g)
  then show ?case by simp
next
  case (2 N word i items g)
  from "2.prems"(2) have nonneg: "0 \<le> i" and rest: "\<forall>(w, i) \<in> set items. 0 \<le> i"
    by simp_all
  show ?case
  proof (cases "int N \<le> i")
    case True
    with "2.prems" "2.IH"(1) [OF True _ rest] show ?thesis
      by (simp add: written_rows_Cons)
  next
    case False
    note small = this
    show ?thesis
    proof (cases "embeddings_index g word")
      case None
      with small "2.prems" "2.IH"(2) [OF small None _ rest] show ?thesis
        by (simp add: written_rows_Cons)
    next
      case (Some v)
      from small Some "2.prems"(3) have ne: "int k \<noteq> i"
        and nw: "int k \<notin> set (written_rows N (embeddings_index g) items)"
        by (simp_all add: written_rows_Cons)
      from small Some "2.prems"(1) obtain M where
        sr: "set_row (embedding_matrix g) i v = Inr M"
        and run: "fill_rows N items (g\<lparr>embedding_matrix := M\<rparr>) = Inr g'"
        by (auto split: sum.splits)
      from sr nonneg ne have same: "M ! k = embedding_matrix g ! k"
        by (auto simp: set_row_def Let_def split: if_splits)
      from "2.IH"(3) [OF small Some sr run rest] nw same show ?thesis by simp
    qed
  qed
qed

lemma fill_rows_written:
  "fill_rows N items g = Inr g' \<Longrightarrow> \<forall>(w, i) \<in> set items. 0 \<le> i
   \<Longrightarrow> distinct (map snd items)
   \<Longrightarrow> dimension D (embeddings_index g)
   \<Longrightarrow> \<forall>r \<in> set (embedding_matrix g). length r = D
   \<Longrightarrow> (w, i) \<in> set items \<Longrightarrow> i < int N \<Longrightarrow> embeddings_index g w = Some v
   \<Longrightarrow> embedding_matrix g' ! nat i = v"
proof (induction N items g rule: fill_rows.induct)
  case (1 N g)
  then show ?case by simp
next
  case (2 N word j items g)
  from "2.prems"(2) have nonneg: "0 \<le> j" and rest: "\<forall>(w, i) \<in> set items. 0 \<le> i"
    by simp_all
  from "2.prems"(3) have fresh: "j \<notin> snd ` set items" and dist: "distinct (map snd items)"
    by simp_all
  show ?case
  proof (cases "(w, i) = (word, j)")
    case True
    then have w: "word = w" and j: "j = i" by simp_all
    from "2.prems"(1,7,8) w j obtain M where
      sr: "set_row (embedding_matrix g) i v = Inr M"
      and run: "fill_rows N items (g\<lparr>embedding_matrix := M\<rparr>) = Inr g'"
      by (auto split: sum.splits)
    from "2.prems"(4,8) have lv: "length v = D" by (simp add: dimension_def)
    from sr nonneg j have inb: "i < int (length (embedding_matrix g))"
      by (auto simp: set_row_def Let_def split: if_splits)
    with nonneg j have "embedding_matrix g ! nat i \<in> set (embedding_matrix g)" by simp
    with "2.prems"(5) have "length (embedding_matrix g ! nat i) = D" by blast
    with sr lv nonneg j inb have M: "M = (embedding_matrix g)[nat i := v]"
      by (simp add: set_row_in_range)
    have "int (nat i) \<notin> set (written_rows N (embeddings_index (g\<lparr>embedding_matrix := M\<rparr>)) items)"
      using fresh j nonneg by (auto simp: set_written_rows image_iff)
    from fill_rows_unwritten [OF run rest this]
    have "embedding_matrix g' ! nat i = M ! nat i" by simp
    with M inb nonneg j show ?thesis by simp
  next
    case False
    with "2.prems"(6) have mem: "(w, i) \<in> set items" by auto
    show ?thesis
    proof (cases "int N \<le> j")
      case True
      with "2.prems"(1) have run: "fill_rows N items g = Inr g'" by simp
      from "2.IH"(1) [OF True run rest dist "2.prems"(4,5) mem "2.prems"(7,8)]
      show ?thesis .
    next
      case small: False
      show ?thesis
      proof (cases "embeddings_index g word")
        case None
        with small "2.prems"(1) have run: "fill_rows N items g = Inr g'" by simp
        from "2.IH"(2) [OF small None run rest dist "2.prems"(4,5) mem "2.prems"(7,8)]
        show ?thesis .
      next
        case (Some u)
        from small Some "2.prems"(1) obtain M where
          sr: "set_row (embedding_matrix g) j u = Inr M"
          and run: "fill_rows N items (g\<lparr>embedding_matrix := M\<rparr>) = Inr g'"
          by (auto split: sum.splits)
        from "2.prems"(4) Some have lu: "length u = D" by (simp add: dimension_def)
        from sr nonneg have inb: "j < int (length (embedding_matrix g))"
          by (auto simp: set_row_def Let_def split: if_splits)
        with nonneg have "embedding_matrix g ! nat j \<in> set (embedding_matrix g)" by simp
        with "2.prems"(5) have "length (embedding_matrix g ! nat j) = D" by blast
        with sr lu nonneg inb have M: "M = (embedding_matrix g)[nat j := u]"
          by (simp add: set_row_in_range)
        let ?g = "g\<lparr>embedding_matrix := M\<rparr>"
        have b: "dimension D (embeddings_index ?g)" using "2.prems"(4) by simp
        have c: "\<forall>r \<in> set (embedding_matrix ?g). length r = D"
          using "2.prems"(5) lu M by (auto dest: subsetD [OF set_update_subset_insert])
        have d: "embeddings_index ?g w = Some v" using "2.prems"(8) by simp
        from "2.IH"(3) [OF small Some sr run rest dist b c mem "2.prems"(7) d]
        show ?thesis .
      qed
    qed
  qed
qed


lemma vocabulary_indices:
  assumes "vocabulary wi"
  shows "set (map snd wi) = {1..int (length wi)}" and "distinct (map snd wi)"
proof -
  from assms have eq: "sort (map snd wi) = [1..int (length wi)]"
    by (simp add: vocabulary_def)
  have "set (map snd wi) = set (sort (map snd wi))" by simp
  also have "\<dots> = {1..int (length wi)}" by (simp only: eq set_upto)
  finally show "set (map snd wi) = {1..int (length wi)}" .
  have "distinct (sort (map snd wi))" by (simp only: eq distinct_upto)
  then show "distinct (map snd wi)" by simp
qed

lemma vocabulary_bounds:
  "vocabulary wi \<Longrightarrow> (w, i) \<in> set wi \<Longrightarrow> 1 \<le> i \<and> i \<le> int (length wi)"
proof -
  assume v: "vocabulary wi" and m: "(w, i) \<in> set wi"
  from m have "i \<in> set (map snd wi)" by force
  with vocabulary_indices(1) [OF v] show ?thesis by simp
qed

lemma bounded_in_range:
  "\<forall>(w, i) \<in> set wi. 1 \<le> i \<and> i \<le> int (length wi)
   \<Longrightarrow> in_range N (min N (length wi + 1)) wi"
  by (auto simp: in_range_def)

lemma distinct_snd_unique:
  "distinct (map snd xs) \<Longrightarrow> (a, i) \<in> set xs \<Longrightarrow> (b, i) \<in> set xs \<Longrightarrow> a = b"
  by (induction xs) (auto simp: image_iff)

lemma largest_index_vocabulary:
  assumes "vocabulary wi"
  shows "largest_index wi = int (length wi)"
proof -
  have "largest_index wi = Max (set (0 # map snd wi))"
    by (simp only: largest_index_def Max.set_eq_fold)
  also have "\<dots> = Max (insert 0 {1..int (length wi)})"
    using vocabulary_indices(1) [OF assms] by simp
  also have "\<dots> = int (length wi)"
  proof (cases "wi = []")
    case True
    then show ?thesis by simp
  next
    case False
    have "insert 0 {1..int (length wi)} = {0..int (length wi)}" by auto
    moreover have "Max {0..int (length wi)} = int (length wi)"
      by (rule Max_eqI) auto
    ultimately show ?thesis by simp
  qed
  finally show ?thesis .
qed

text \<open>
  C1. For a vocabulary mapping (distinct words, indices exactly 1..V) and an embedding index
  whose vectors all have \<open>D\<close> entries, the builder returns a matrix in which, for every
  pair (word, index) of the vocabulary whose index is a row of the matrix, row \<open>index\<close> is
  the embedding index's vector for the word when it has one and the zero vector of
  length \<open>D\<close> when it has none; row 0 (there is one as soon as \<open>N > 0\<close>) is the zero vector.
\<close>

theorem embedding_matrix_rows:
  assumes voc: "vocabulary (word_index g)" and dim: "dimension D (embeddings_index g)"
  shows "\<exists>g'. build_embedding_matrix N D g = Inr g'
     \<and> (\<forall>(word, i) \<in> set (word_index g). i < int (length (embedding_matrix g')) \<longrightarrow>
          embedding_matrix g' ! nat i =
            (case embeddings_index g word of Some v \<Rightarrow> v | None \<Rightarrow> replicate D 0))
     \<and> (0 < N \<longrightarrow> embedding_matrix g' ! 0 = replicate D 0)"
proof -
  let ?wi = "word_index g"
  let ?n = "min N (length ?wi + 1)"
  let ?g2 = "g\<lparr>num_words := ?n, embedding_matrix := replicate ?n (replicate D 0)\<rparr>"
  have build: "build_embedding_matrix N D g = fill_rows N ?wi ?g2"
    by (simp add: build_embedding_matrix_def Let_def)
  have bounds: "\<forall>(w, i) \<in> set ?wi. 1 \<le> i \<and> i \<le> int (length ?wi)"
    using vocabulary_bounds [OF voc] by blast
  then have nonneg: "\<forall>(w, i) \<in> set ?wi. 0 \<le> i" by fastforce
  have rng: "in_range N (length (embedding_matrix ?g2)) ?wi"
    using bounded_in_range [OF bounds] by simp
  have dim2: "dimension D (embeddings_index ?g2)" using dim by simp
  have rows2: "\<forall>r \<in> set (embedding_matrix ?g2). length r = D" by simp
  from fill_rows_total [OF rng dim2 rows2] obtain g' where
    run: "fill_rows N ?wi ?g2 = Inr g'" by blast
  from fill_rows_fields [OF run] have len: "length (embedding_matrix g') = ?n" by simp
  have rows: "embedding_matrix g' ! nat i =
      (case embeddings_index g word of Some v \<Rightarrow> v | None \<Rightarrow> replicate D 0)"
    if mem: "(word, i) \<in> set ?wi" and small: "i < int (length (embedding_matrix g'))"
    for word i
  proof (cases "embeddings_index g word")
    case (Some v)
    from small len have iN: "i < int N" by simp
    have "embeddings_index ?g2 word = Some v" using Some by simp
    from fill_rows_written [OF run nonneg vocabulary_indices(2) [OF voc] dim2 rows2 mem iN this]
    show ?thesis using Some by simp
  next
    case None
    from bounds mem have i1: "1 \<le> i" by blast
    have "int (nat i) \<notin> set (written_rows N (embeddings_index ?g2) ?wi)"
    proof
      assume "int (nat i) \<in> set (written_rows N (embeddings_index ?g2) ?wi)"
      with i1 obtain w where w: "(w, i) \<in> set ?wi" "embeddings_index g w \<noteq> None"
        by (auto simp: set_written_rows)
      from distinct_snd_unique [OF vocabulary_indices(2) [OF voc] w(1) mem] w(2) None
      show False by simp
    qed
    from fill_rows_unwritten [OF run nonneg this]
    have "embedding_matrix g' ! nat i = replicate ?n (replicate D 0) ! nat i" by simp
    also have "\<dots> = replicate D 0"
    proof -
      from small len i1 have "nat i < ?n" by linarith
      then show ?thesis by (rule nth_replicate)
    qed
    finally show ?thesis using None by simp
  qed
  have row0: "embedding_matrix g' ! 0 = replicate D 0" if "0 < N"
  proof -
    have "int 0 \<notin> set (written_rows N (embeddings_index ?g2) ?wi)"
      using bounds by (fastforce simp: set_written_rows)
    from fill_rows_unwritten [OF run nonneg this]
    have "embedding_matrix g' ! 0 = replicate ?n (replicate D 0) ! 0" by simp
    also have "\<dots> = replicate D 0" using that by simp
    finally show ?thesis .
  qed
  from build run rows row0 show ?thesis by auto
qed

theorem embedding_matrix_rows_witness:
  "vocabulary [(''the'', 1), (''cat'', 2), (''sat'', 3)]
   \<and> dimension 2 [''the'' \<mapsto> [1, 2 :: int], ''sat'' \<mapsto> [5, 6]]
   \<and> (\<exists>g'. build_embedding_matrix 10 2
          \<lparr>word_index = [(''the'', 1), (''cat'', 2), (''sat'', 3)],
           embeddings_index = [''the'' \<mapsto> [1, 2 :: int], ''sat'' \<mapsto> [5, 6]],
           num_words = 0, embedding_matrix = []\<rparr> = Inr g'
        \<and> embedding_matrix g' ! 0 = [0, 0]
        \<and> embedding_matrix g' ! 1 = [1, 2]
        \<and> embedding_matrix g' ! 2 = [0, 0]
        \<and> embedding_matrix g' ! 3 = [5, 6])"
proof -
  let ?wi = "[(''the'', 1), (''cat'', 2), (''sat'', 3 :: int)]"
  let ?ei = "[''the'' \<mapsto> [1, 2 :: int], ''sat'' \<mapsto> [5, 6]]"
  let ?g = "\<lparr>word_index = ?wi, embeddings_index = ?ei, num_words = 0, embedding_matrix = []\<rparr>"
  have voc: "vocabulary ?wi" by (simp add: vocabulary_def upto.simps)
  have dim: "dimension 2 ?ei" by (simp add: dimension_def)
  from embedding_matrix_rows [of ?g 2 10] voc dim obtain g' where
    run: "build_embedding_matrix 10 2 ?g = Inr g'"
    and rows: "\<forall>(word, i) \<in> set ?wi. i < int (length (embedding_matrix g')) \<longrightarrow>
          embedding_matrix g' ! nat i = (case ?ei word of Some v \<Rightarrow> v | None \<Rightarrow> replicate 2 0)"
    and row0: "embedding_matrix g' ! 0 = replicate 2 0"
    by auto
  have "build_embedding_matrix 10 2 ?g
      = Inr (?g\<lparr>num_words := 4, embedding_matrix := [[0, 0], [1, 2], [0, 0], [5, 6]]\<rparr>)"
    by (simp add: build_embedding_matrix_def set_row_def Let_def numeral_eq_Suc)
  with run have len: "length (embedding_matrix g') = 4" by auto
  from rows len have "embedding_matrix g' ! 1 = [1, 2]" "embedding_matrix g' ! 2 = [0, 0]"
    "embedding_matrix g' ! 3 = [5, 6]"
    by (simp_all add: numeral_eq_Suc)
  with voc dim run row0 show ?thesis by (simp add: numeral_eq_Suc)
qed

text \<open>
  C2. For a vocabulary mapping with largest index \<open>V\<close> and an embedding index of dimension
  \<open>D\<close>, the builder returns a matrix of exactly \<open>min N (V + 1)\<close> rows, each of \<open>D\<close> columns;
  with \<open>V = 50\<close>, \<open>N = 20000\<close> and \<open>D = 100\<close> that is 51 rows of 100 columns.
\<close>

theorem embedding_matrix_shape:
  assumes voc: "vocabulary (word_index g)" and dim: "dimension D (embeddings_index g)"
  shows "\<exists>g'. build_embedding_matrix N D g = Inr g'
     \<and> length (embedding_matrix g') = min N (nat (largest_index (word_index g)) + 1)
     \<and> num_words g' = length (embedding_matrix g')
     \<and> (\<forall>r \<in> set (embedding_matrix g'). length r = D)
     \<and> (largest_index (word_index g) = 50 \<and> N = 20000 \<and> D = 100 \<longrightarrow>
          length (embedding_matrix g') = 51 \<and> (\<forall>r \<in> set (embedding_matrix g'). length r = 100))"
proof -
  let ?wi = "word_index g"
  let ?n = "min N (length ?wi + 1)"
  let ?g2 = "g\<lparr>num_words := ?n, embedding_matrix := replicate ?n (replicate D 0)\<rparr>"
  have build: "build_embedding_matrix N D g = fill_rows N ?wi ?g2"
    by (simp add: build_embedding_matrix_def Let_def)
  have bounds: "\<forall>(w, i) \<in> set ?wi. 1 \<le> i \<and> i \<le> int (length ?wi)"
    using vocabulary_bounds [OF voc] by blast
  have rng: "in_range N (length (embedding_matrix ?g2)) ?wi"
    using bounded_in_range [OF bounds] by simp
  have dim2: "dimension D (embeddings_index ?g2)" using dim by simp
  have rows2: "\<forall>r \<in> set (embedding_matrix ?g2). length r = D" by simp
  from fill_rows_total [OF rng dim2 rows2] obtain g' where
    run: "fill_rows N ?wi ?g2 = Inr g'"
    and cols: "\<forall>r \<in> set (embedding_matrix g'). length r = D" by blast
  from fill_rows_fields [OF run] have len: "length (embedding_matrix g') = ?n"
    and nw: "num_words g' = ?n" by simp_all
  from largest_index_vocabulary [OF voc]
  have V: "nat (largest_index ?wi) = length ?wi" by simp
  from len V have shape: "length (embedding_matrix g') = min N (nat (largest_index ?wi) + 1)"
    by simp
  have special: "length (embedding_matrix g') = 51 \<and> (\<forall>r \<in> set (embedding_matrix g'). length r = 100)"
    if "largest_index ?wi = 50 \<and> N = 20000 \<and> D = 100"
    using that shape cols by simp
  from build run shape nw len cols special show ?thesis by auto
qed

theorem embedding_matrix_shape_witness:
  "vocabulary [(''the'', 1), (''cat'', 2), (''sat'', 3)]
   \<and> dimension 2 [''the'' \<mapsto> [1, 2 :: int], ''sat'' \<mapsto> [5, 6]]
   \<and> largest_index [(''the'', 1), (''cat'', 2), (''sat'', 3)] = 3
   \<and> (\<exists>g'. build_embedding_matrix 3 2
          \<lparr>word_index = [(''the'', 1), (''cat'', 2), (''sat'', 3)],
           embeddings_index = [''the'' \<mapsto> [1, 2 :: int], ''sat'' \<mapsto> [5, 6]],
           num_words = 0, embedding_matrix = []\<rparr> = Inr g'
        \<and> length (embedding_matrix g') = 3
        \<and> list_all (\<lambda>r. length r = 2) (embedding_matrix g'))"
proof -
  let ?wi = "[(''the'', 1), (''cat'', 2), (''sat'', 3 :: int)]"
  let ?ei = "[''the'' \<mapsto> [1, 2 :: int], ''sat'' \<mapsto> [5, 6]]"
  let ?g = "\<lparr>word_index = ?wi, embeddings_index = ?ei, num_words = 0, embedding_matrix = []\<rparr>"
  have voc: "vocabulary ?wi" by (simp add: vocabulary_def upto.simps)
  have dim: "dimension 2 ?ei" by (simp add: dimension_def)
  have V: "largest_index ?wi = 3" by (simp add: largest_index_def)
  from embedding_matrix_shape [of ?g 2 3] voc dim V obtain g' where
    "build_embedding_matrix 3 2 ?g = Inr g'"
    "length (embedding_matrix g') = 3" "\<forall>r \<in> set (embedding_matrix g'). length r = 2"
    by auto
  with voc dim V show ?thesis by (auto simp: list_all_iff)
qed

text \<open>
  C9. The builder's result (the new bindings, or the exception) is a function of the
  vocabulary mapping, \<open>N\<close>, \<open>D\<close> and the embedding index alone: two runs from states that
  agree on the two inputs give the same result. A run that returns leaves the vocabulary
  mapping and the embedding index as they were, and running the cell again on the state it
  produced gives that state again.
\<close>

theorem build_embedding_matrix_pure:
  "(word_index h = word_index g \<and> embeddings_index h = embeddings_index g
      \<longrightarrow> build_embedding_matrix N D h = build_embedding_matrix N D g)
   \<and> (build_embedding_matrix N D g = Inr g'
      \<longrightarrow> word_index g' = word_index g \<and> embeddings_index g' = embeddings_index g
          \<and> build_embedding_matrix N D g' = Inr g')"
proof -
  have inputs_only: "build_embedding_matrix N D a = build_embedding_matrix N D b"
    if same: "word_index a = word_index b" "embeddings_index a = embeddings_index b"
    for a b :: "'a globals"
  proof -
    from same
    have eq: "a\<lparr>num_words := n, embedding_matrix := M\<rparr> = b\<lparr>num_words := n, embedding_matrix := M\<rparr>"
      for n M by (cases a, cases b) simp
    from same show ?thesis
      by (simp add: build_embedding_matrix_def Let_def eq)
  qed
  have rerun: "word_index g' = word_index g \<and> embeddings_index g' = embeddings_index g
      \<and> build_embedding_matrix N D g' = Inr g'"
    if run: "build_embedding_matrix N D g = Inr g'"
  proof -
    from run have "fill_rows N (word_index g)
        (g\<lparr>num_words := min N (length (word_index g) + 1),
           embedding_matrix := replicate (min N (length (word_index g) + 1)) (replicate D 0)\<rparr>)
        = Inr g'"
      by (simp add: build_embedding_matrix_def Let_def)
    from fill_rows_fields [OF this]
    have wi: "word_index g' = word_index g" and ei: "embeddings_index g' = embeddings_index g"
      by simp_all
    from inputs_only [OF wi ei] run wi ei show ?thesis by simp
  qed
  from inputs_only [of h g] rerun show ?thesis by blast
qed

theorem build_embedding_matrix_pure_witness:
  "build_embedding_matrix 10 2
      \<lparr>word_index = [(''the'', 1), (''cat'', 2)],
       embeddings_index = [''the'' \<mapsto> [1, 2 :: int]],
       num_words = 0, embedding_matrix = []\<rparr>
    = Inr \<lparr>word_index = [(''the'', 1), (''cat'', 2)],
       embeddings_index = [''the'' \<mapsto> [1, 2 :: int]],
       num_words = 3, embedding_matrix = [[0, 0], [1, 2], [0, 0]]\<rparr>
   \<and> build_embedding_matrix 10 2
      \<lparr>word_index = [(''the'', 1), (''cat'', 2)],
       embeddings_index = [''the'' \<mapsto> [1, 2 :: int]],
       num_words = 3, embedding_matrix = [[0, 0], [1, 2], [0, 0]]\<rparr>
    = Inr \<lparr>word_index = [(''the'', 1), (''cat'', 2)],
       embeddings_index = [''the'' \<mapsto> [1, 2 :: int]],
       num_words = 3, embedding_matrix = [[0, 0], [1, 2], [0, 0]]\<rparr>
   \<and> build_embedding_matrix 10 2
      \<lparr>word_index = [(''the'', 1), (''cat'', 2)],
       embeddings_index = [''the'' \<mapsto> [1, 2 :: int]],
       num_words = 7, embedding_matrix = [[9]]\<rparr>
    = build_embedding_matrix 10 2
      \<lparr>word_index = [(''the'', 1), (''cat'', 2)],
       embeddings_index = [''the'' \<mapsto> [1, 2 :: int]],
       num_words = 0, embedding_matrix = []\<rparr>"
proof -
  let ?wi = "[(''the'', 1), (''cat'', 2 :: int)]"
  let ?ei = "[''the'' \<mapsto> [1, 2 :: int]]"
  let ?g = "\<lparr>word_index = ?wi, embeddings_index = ?ei, num_words = 0, embedding_matrix = []\<rparr>"
  let ?h = "\<lparr>word_index = ?wi, embeddings_index = ?ei, num_words = 7, embedding_matrix = [[9]]\<rparr>"
  let ?g' = "\<lparr>word_index = ?wi, embeddings_index = ?ei, num_words = 3,
     embedding_matrix = [[0, 0], [1, 2], [0, 0]]\<rparr>"
  have run: "build_embedding_matrix 10 2 ?g = Inr ?g'"
    by (simp add: build_embedding_matrix_def set_row_def Let_def numeral_eq_Suc)
  from build_embedding_matrix_pure [of ?h ?g 10 2 ?g'] run
  have "build_embedding_matrix 10 2 ?h = build_embedding_matrix 10 2 ?g"
    and "build_embedding_matrix 10 2 ?g' = Inr ?g'" by simp_all
  with run show ?thesis by simp
qed

text \<open>
  C10. When every index of the vocabulary mapping lies between 1 and the number of its
  words, every row index at which the fill loop assigns satisfies \<open>i < N\<close> and
  \<open>0 < i < num_rows\<close> with \<open>num_rows = min N (number of words + 1)\<close>, the number of rows
  allocated, and the builder never raises IndexError.
\<close>

theorem fill_rows_within_bounds:
  assumes "\<forall>(w, i) \<in> set (word_index g). 1 \<le> i \<and> i \<le> int (length (word_index g))"
  shows "(\<forall>i \<in> set (written_rows N (embeddings_index g) (word_index g)).
            i < int N \<and> 0 < i \<and> i < int (min N (length (word_index g) + 1)))
     \<and> build_embedding_matrix N D g \<noteq> Inl IndexError"
proof
  show "\<forall>i \<in> set (written_rows N (embeddings_index g) (word_index g)).
            i < int N \<and> 0 < i \<and> i < int (min N (length (word_index g) + 1))"
    using assms by (fastforce simp: set_written_rows)
next
  let ?n = "min N (length (word_index g) + 1)"
  let ?g2 = "g\<lparr>num_words := ?n, embedding_matrix := replicate ?n (replicate D 0)\<rparr>"
  have "in_range N (length (embedding_matrix ?g2)) (word_index g)"
    using bounded_in_range [OF assms] by simp
  from fill_rows_no_IndexError [OF this]
  show "build_embedding_matrix N D g \<noteq> Inl IndexError"
    by (simp add: build_embedding_matrix_def Let_def)
qed

theorem fill_rows_within_bounds_witness:
  "list_all (\<lambda>(w, i). 1 \<le> i \<and> i \<le> 3) [(''the'', 1), (''cat'', 2), (''sat'', 3 :: int)]
   \<and> written_rows 3 [''the'' \<mapsto> [1, 2 :: int], ''sat'' \<mapsto> [5, 6]]
        [(''the'', 1), (''cat'', 2), (''sat'', 3)] = [1]
   \<and> build_embedding_matrix 3 2
          \<lparr>word_index = [(''the'', 1), (''cat'', 2), (''sat'', 3)],
           embeddings_index = [''the'' \<mapsto> [1, 2 :: int], ''sat'' \<mapsto> [5, 6]],
           num_words = 0, embedding_matrix = []\<rparr> \<noteq> Inl IndexError"
proof -
  let ?wi = "[(''the'', 1), (''cat'', 2), (''sat'', 3 :: int)]"
  let ?ei = "[''the'' \<mapsto> [1, 2 :: int], ''sat'' \<mapsto> [5, 6]]"
  let ?g = "\<lparr>word_index = ?wi, embeddings_index = ?ei, num_words = 0, embedding_matrix = []\<rparr>"
  have b: "\<forall>(w, i) \<in> set (word_index ?g). 1 \<le> i \<and> i \<le> int (length (word_index ?g))"
    by simp
  have w: "written_rows 3 ?ei ?wi = [1]" by (simp add: written_rows_def)
  from fill_rows_within_bounds [OF b, of 3 2] w show ?thesis by simp
qed

subsection \<open>Pre-trained embedding index\<close>

lemma asarray_numeric:
  "list_all (\<lambda>tok. to_float tok \<noteq> None) toks
   \<Longrightarrow> \<exists>xs. asarray to_float toks = Inr xs \<and> length xs = length toks"
  by (induction toks) auto

lemma asarray_Inr:
  "asarray to_float toks = Inr xs
   \<Longrightarrow> list_all (\<lambda>tok. to_float tok \<noteq> None) toks \<and> length xs = length toks"
  by (induction toks arbitrary: xs) (auto split: option.splits sum.splits)

lemma asarray_first_non_numeric:
  "list_all (\<lambda>tok. to_float tok \<noteq> None) ok \<Longrightarrow> to_float tok = None
   \<Longrightarrow> asarray to_float (ok @ tok # others) = Inl (ValueError_convert tok)"
  by (induction ok) auto

lemma read_embeddings_Inr:
  "read_embeddings to_float lines index = Inr m
   \<Longrightarrow> (\<forall>w v. index w = Some v \<longrightarrow> (\<exists>l \<in> set known. hd (str_split l) = w \<and> length v = length (tl (str_split l))))
   \<Longrightarrow> (\<forall>line \<in> set lines. well_formed to_float line)
       \<and> (\<forall>line \<in> set lines. \<exists>v. m (hd (str_split line)) = Some v)
       \<and> (\<forall>w v. m w = Some v \<longrightarrow>
            (\<exists>l \<in> set (known @ lines). hd (str_split l) = w \<and> length v = length (tl (str_split l))))
       \<and> (\<forall>w. index w \<noteq> None \<longrightarrow> m w \<noteq> None)"
proof (induction lines arbitrary: index known)
  case Nil
  then show ?case by simp
next
  case (Cons line lines)
  from Cons.prems(1) obtain word vals coefs where
    sp: "str_split line = word # vals"
    and arr: "asarray to_float vals = Inr coefs"
    and run: "read_embeddings to_float lines (index(word \<mapsto> coefs)) = Inr m"
    by (auto split: list.splits sum.splits)
  from asarray_Inr [OF arr] have num: "list_all (\<lambda>tok. to_float tok \<noteq> None) vals"
    and len: "length coefs = length vals" by simp_all
  have wf: "well_formed to_float line" using sp num by (simp add: well_formed_def)
  have known': "\<forall>w v. (index(word \<mapsto> coefs)) w = Some v \<longrightarrow>
      (\<exists>l \<in> set (known @ [line]). hd (str_split l) = w \<and> length v = length (tl (str_split l)))"
    using Cons.prems(2) sp len by auto
  from Cons.IH [OF run known'] have
    a: "\<forall>line \<in> set lines. well_formed to_float line"
    and b: "\<forall>line \<in> set lines. \<exists>v. m (hd (str_split line)) = Some v"
    and c: "\<forall>w v. m w = Some v \<longrightarrow>
            (\<exists>l \<in> set ((known @ [line]) @ lines). hd (str_split l) = w \<and> length v = length (tl (str_split l)))"
    and d: "\<forall>w. (index(word \<mapsto> coefs)) w \<noteq> None \<longrightarrow> m w \<noteq> None"
    by blast+
  from d have here: "\<exists>v. m (hd (str_split line)) = Some v" using sp by auto
  from d have keep: "\<forall>w. index w \<noteq> None \<longrightarrow> m w \<noteq> None" by auto
  from wf a b c here keep show ?case by simp
qed

lemma read_embeddings_well_formed:
  "list_all (well_formed to_float) lines \<Longrightarrow> \<exists>m. read_embeddings to_float lines index = Inr m"
proof (induction lines arbitrary: index)
  case Nil
  then show ?case by simp
next
  case (Cons line lines)
  from Cons.prems obtain word vals where sp: "str_split line = word # vals"
    and num: "list_all (\<lambda>tok. to_float tok \<noteq> None) vals"
    by (auto simp: well_formed_def split: list.splits)
  from asarray_numeric [OF num] obtain coefs where arr: "asarray to_float vals = Inr coefs"
    by blast
  from Cons.prems have "list_all (well_formed to_float) lines" by simp
  from Cons.IH [OF this, of "index(word \<mapsto> coefs)"] obtain m where
    "read_embeddings to_float lines (index(word \<mapsto> coefs)) = Inr m" by blast
  with sp arr show ?case by simp
qed

lemma read_embeddings_first_non_numeric:
  "list_all (well_formed to_float) good \<Longrightarrow> str_split bad = word # ok @ tok # others
   \<Longrightarrow> list_all (\<lambda>t. to_float t \<noteq> None) ok \<Longrightarrow> to_float tok = None
   \<Longrightarrow> read_embeddings to_float (good @ bad # rest) index = Inl (ValueError_convert tok)"
proof (induction good arbitrary: index)
  case Nil
  then show ?case by (simp add: asarray_first_non_numeric)
next
  case (Cons line lines)
  from Cons.prems(1) obtain w vals where sp: "str_split line = w # vals"
    and num: "list_all (\<lambda>tok. to_float tok \<noteq> None) vals"
    by (auto simp: well_formed_def split: list.splits)
  from asarray_numeric [OF num] obtain coefs where arr: "asarray to_float vals = Inr coefs"
    by blast
  from Cons.prems(1) have "list_all (well_formed to_float) lines" by simp
  from Cons.IH [OF this Cons.prems(2-4), of "index(w \<mapsto> coefs)"]
  have "read_embeddings to_float (lines @ bad # rest) (index(w \<mapsto> coefs))
      = Inl (ValueError_convert tok)" .
  with sp arr show ?case by simp
qed

text \<open>
  C6, as amended. A line with a non-numeric coefficient makes the parser fail: with numpy's
  ValueError naming the first such token of the first such line when the lines before it
  are well formed. The parser never skips a line: when it returns an index, every line is
  well formed and its word is a key. It does not compare the number of coefficients of a
  line with a common dimension: every file of well-formed lines is accepted, and the vector
  stored for a word has as many entries as a line for that word has coefficients.
\<close>

theorem parse_embeddings_non_numeric:
  "((\<exists>line \<in> set lines. \<exists>tok \<in> set (tl (str_split line)). to_float tok = None)
      \<longrightarrow> (\<exists>e. parse_embeddings to_float lines = Inl e))
   \<and> (list_all (well_formed to_float) good \<and> str_split bad = word # ok @ tok # others
        \<and> list_all (\<lambda>t. to_float t \<noteq> None) ok \<and> to_float tok = None
      \<longrightarrow> parse_embeddings to_float (good @ bad # rest) = Inl (ValueError_convert tok))
   \<and> (parse_embeddings to_float lines = Inr m
      \<longrightarrow> (\<forall>line \<in> set lines. well_formed to_float line \<and> m (hd (str_split line)) \<noteq> None)
          \<and> (\<forall>w v. m w = Some v \<longrightarrow>
               (\<exists>l \<in> set lines. hd (str_split l) = w \<and> length v = length (tl (str_split l)))))
   \<and> (list_all (well_formed to_float) lines
      \<longrightarrow> (\<exists>m. parse_embeddings to_float lines = Inr m))"
proof -
  have stored: "(\<forall>line \<in> set lines. well_formed to_float line \<and> m (hd (str_split line)) \<noteq> None)
          \<and> (\<forall>w v. m w = Some v \<longrightarrow>
               (\<exists>l \<in> set lines. hd (str_split l) = w \<and> length v = length (tl (str_split l))))"
    if run: "parse_embeddings to_float lines = Inr m" for m
  proof -
    from run have "read_embeddings to_float lines Map.empty = Inr m"
      by (simp add: parse_embeddings_def)
    from read_embeddings_Inr [OF this, of "[]"] show ?thesis by auto
  qed
  have fails: "\<exists>e. parse_embeddings to_float lines = Inl e"
    if bad: "\<exists>line \<in> set lines. \<exists>tok \<in> set (tl (str_split line)). to_float tok = None"
  proof (cases "parse_embeddings to_float lines")
    case (Inl e)
    then show ?thesis by blast
  next
    case (Inr m')
    from bad obtain line tok where l: "line \<in> set lines"
      and t: "tok \<in> set (tl (str_split line))" "to_float tok = None" by blast
    from stored [OF Inr] l have "well_formed to_float line" by blast
    with t have False
      by (auto simp: well_formed_def list_all_iff split: list.splits)
    then show ?thesis ..
  qed
  have first: "parse_embeddings to_float (good @ bad # rest) = Inl (ValueError_convert tok)"
    if "list_all (well_formed to_float) good \<and> str_split bad = word # ok @ tok # others
        \<and> list_all (\<lambda>t. to_float t \<noteq> None) ok \<and> to_float tok = None"
    using that read_embeddings_first_non_numeric [of to_float good bad word ok tok others rest]
    by (simp add: parse_embeddings_def)
  have total: "\<exists>m. parse_embeddings to_float lines = Inr m"
    if "list_all (well_formed to_float) lines"
    using that read_embeddings_well_formed [of to_float lines] by (simp add: parse_embeddings_def)
  from fails first stored total show ?thesis by blast
qed

theorem parse_embeddings_non_numeric_witness:
  "parse_embeddings decimal [''a 1 2'', ''b 1 x 3'', ''c 4''] = Inl (ValueError_convert ''x'')
   \<and> list_all (well_formed decimal) [''a 1 2'', ''b 7'']
   \<and> parse_embeddings decimal [''a 1 2'', ''b 7''] = Inr [''a'' \<mapsto> [1, 2], ''b'' \<mapsto> [7]]
   \<and> well_formed decimal ''b 7''"
proof -
  let ?m = "[''a'' \<mapsto> [1, 2 :: int], ''b'' \<mapsto> [7]]"
  have sp: "str_split ''a 1 2'' = [''a'', ''1'', ''2'']"
    "str_split ''b 1 x 3'' = ''b'' # [''1''] @ ''x'' # [''3'']"
    "str_split ''b 7'' = [''b'', ''7'']"
    by (simp_all add: str_split_def isspace_def)
  have good: "list_all (well_formed decimal) [''a 1 2'']"
    by (simp add: well_formed_def sp decimal_def)
  have ok: "list_all (\<lambda>t. decimal t \<noteq> None) [''1'']" by (simp add: decimal_def)
  have x: "decimal ''x'' = None" by (simp add: decimal_def)
  have wf: "list_all (well_formed decimal) [''a 1 2'', ''b 7'']"
    by (simp add: well_formed_def sp decimal_def)
  have run: "parse_embeddings decimal [''a 1 2'', ''b 7''] = Inr ?m"
    by (simp add: parse_embeddings_def sp decimal_def)
  from parse_embeddings_non_numeric [of "[''a 1 2'', ''b 7'']" decimal "[''a 1 2'']"
      "''b 1 x 3''" "''b''" "[''1'']" "''x''" "[''3'']" "[''c 4'']" ?m] good sp(2) ok x run
  have fails: "parse_embeddings decimal [''a 1 2'', ''b 1 x 3'', ''c 4'']
      = Inl (ValueError_convert ''x'')"
    and kept: "\<forall>line \<in> set [''a 1 2'', ''b 7'']. well_formed decimal line \<and> ?m (hd (str_split line)) \<noteq> None"
    by simp_all
  from kept have "well_formed decimal ''b 7''" by simp
  with fails wf run show ?thesis by simp
qed

text \<open>
  C6 as stated fails: a file whose second line has one coefficient where the first has two
  is parsed without an error, and the index holds vectors of both lengths.
\<close>

theorem parse_embeddings_mixed_dimensions:
  "parse_embeddings decimal [''a 1 2'' @ [newline], ''b 1'' @ [newline]]
     = Inr [''a'' \<mapsto> [1, 2], ''b'' \<mapsto> [1]]
   \<and> length (tl (str_split (''a 1 2'' @ [newline]))) = 2
   \<and> length (tl (str_split (''b 1'' @ [newline]))) = 1"
  by (simp add: parse_embeddings_def str_split_def isspace_def newline_def decimal_def)

subsection \<open>Corpus loader\<close>

lemma dict_set_fresh: "k \<notin> fst ` set kvs \<Longrightarrow> dict_set k v kvs = kvs @ [(k, v)]"
  by (induction kvs) auto

lemma read_files_result:
  "read_files k files s = Inr s' \<Longrightarrow>
     texts s' = texts s @ digit_files files
     \<and> labels s' = labels s @ replicate (length (digit_files files)) k
     \<and> labels_index s' = labels_index s"
proof (induction files arbitrary: s)
  case Nil
  then show ?case by simp
next
  case (Cons a files)
  obtain fname f where a: "a = (fname, f)" by (cases a)
  show ?case
  proof (cases "isdigit fname")
    case False
    with Cons a show ?thesis by (cases f) auto
  next
    case True
    with Cons.prems a obtain t where f: "f = File t"
      and run: "read_files k files
          (s\<lparr>texts := texts s @ [strip_header t], labels := labels s @ [k]\<rparr>) = Inr s'"
      by (cases f) auto
    from Cons.IH [OF run] True a f show ?thesis
      by (simp add: replicate_append_same)
  qed
qed

lemma read_files_readable:
  "readable_files files \<Longrightarrow> \<exists>s'. read_files k files s = Inr s'"
proof (induction files arbitrary: s)
  case Nil
  then show ?case by simp
next
  case (Cons a files)
  obtain fname f where a: "a = (fname, f)" by (cases a)
  with Cons show ?case by (cases f) auto
qed

lemma readable_files_sort: "readable_files (sort_key fst files) = readable_files files"
proof -
  have "readable_files xs \<longleftrightarrow> (\<forall>(fname, f) \<in> set xs. isdigit fname \<longrightarrow> \<not> is_dir f)" for xs
    by (induction xs) auto
  then show ?thesis by simp
qed

lemma subdirs_simps:
  "subdirs [] = []"
  "subdirs ((name, File t) # rest) = subdirs rest"
  "subdirs ((name, Dir files) # rest) = name # subdirs rest"
  by (simp_all add: subdirs_def)

lemma subdirs_subset: "set (subdirs es) \<subseteq> fst ` set es"
  by (auto simp: subdirs_def)

lemma load_dirs_result:
  "load_dirs es s = Inr s' \<Longrightarrow> distinct (map fst es)
   \<Longrightarrow> fst ` set es \<inter> fst ` set (labels_index s) = {}
   \<Longrightarrow> labels_index s' = labels_index s
         @ zip (subdirs es) [length (labels_index s) ..< length (labels_index s) + length (subdirs es)]
     \<and> texts s' = texts s @ map fst (samples (length (labels_index s)) es)
     \<and> labels s' = labels s @ map snd (samples (length (labels_index s)) es)"
proof (induction es s rule: load_dirs.induct)
  case (1 s)
  then show ?case by (simp add: subdirs_simps)
next
  case (2 name t rest s)
  then show ?case by (auto simp: subdirs_simps)
next
  case (3 name files rest s)
  let ?n = "length (labels_index s)"
  let ?s1 = "s\<lparr>labels_index := dict_set name ?n (labels_index s)\<rparr>"
  from "3.prems"(3) have fresh: "name \<notin> fst ` set (labels_index s)" by auto
  then have s1: "labels_index ?s1 = labels_index s @ [(name, ?n)]"
    by (simp add: dict_set_fresh)
  from "3.prems"(1) obtain s2 where
    rf: "read_files ?n (sort_key fst files) ?s1 = Inr s2"
    and run: "load_dirs rest s2 = Inr s'"
    by (auto simp: Let_def split: sum.splits)
  from read_files_result [OF rf] s1 have
    t2: "texts s2 = texts s @ digit_files (sort_key fst files)"
    and l2: "labels s2 = labels s @ replicate (length (digit_files (sort_key fst files))) ?n"
    and i2: "labels_index s2 = labels_index s @ [(name, ?n)]"
    by simp_all
  from "3.prems"(2) have dist: "distinct (map fst rest)" and nm: "name \<notin> fst ` set rest"
    by simp_all
  from "3.prems"(3) nm i2 have disj: "fst ` set rest \<inter> fst ` set (labels_index s2) = {}"
    by auto
  from "3.IH" [OF refl refl rf run dist disj] i2 have
    li: "labels_index s' = (labels_index s @ [(name, ?n)])
         @ zip (subdirs rest) [Suc ?n ..< Suc ?n + length (subdirs rest)]"
    and tx: "texts s' = texts s2 @ map fst (samples (Suc ?n) rest)"
    and lb: "labels s' = labels s2 @ map snd (samples (Suc ?n) rest)"
    by simp_all
  have "[?n ..< ?n + Suc (length (subdirs rest))] = ?n # [Suc ?n ..< Suc ?n + length (subdirs rest)]"
    by (subst upt_rec) simp
  with li have li': "labels_index s' = labels_index s
      @ zip (subdirs ((name, Dir files) # rest))
          [?n ..< ?n + length (subdirs ((name, Dir files) # rest))]"
    by (simp add: subdirs_simps)
  have sm: "map snd (map (\<lambda>t. (t, ?n)) (digit_files (sort_key fst files)))
      = replicate (length (digit_files (sort_key fst files))) ?n"
    by (simp add: map_replicate_const comp_def)
  from tx t2 have tx': "texts s' = texts s @ map fst (samples ?n ((name, Dir files) # rest))"
    by (simp add: comp_def)
  from lb l2 sm have lb': "labels s' = labels s @ map snd (samples ?n ((name, Dir files) # rest))"
    by simp
  from li' tx' lb' show ?case by blast
qed

lemma load_dirs_readable:
  "readable es \<Longrightarrow> \<exists>s'. load_dirs es s = Inr s'"
proof (induction es s rule: load_dirs.induct)
  case (1 s)
  then show ?case by simp
next
  case (2 name t rest s)
  then show ?case by simp
next
  case (3 name files rest s)
  let ?n = "length (labels_index s)"
  let ?s1 = "s\<lparr>labels_index := dict_set name ?n (labels_index s)\<rparr>"
  from "3.prems" have "readable_files (sort_key fst files)" and rest: "readable rest"
    by (simp_all add: readable_files_sort)
  from read_files_readable [OF this(1)] obtain s2 where
    rf: "read_files ?n (sort_key fst files) ?s1 = Inr s2" by blast
  from "3.IH" [OF refl refl rf rest] rf show ?case by (simp add: Let_def)
qed


lemma readable_iff:
  "readable es \<longleftrightarrow> (\<forall>(name, f) \<in> set es. case f of Dir files \<Rightarrow> readable_files files | File t \<Rightarrow> True)"
  by (induction es rule: readable.induct) auto

lemma readable_sort: "readable (sort_key fst root) = readable root"
  by (simp add: readable_iff)

lemma subdirs_sort:
  "sorted (subdirs (sort_key fst root))"
  "set (subdirs (sort_key fst root)) = set (subdirs root)"
  "length (subdirs (sort_key fst root)) = length (subdirs root)"
proof -
  show "sorted (subdirs (sort_key fst root))"
    unfolding subdirs_def by (rule sorted_filter) (rule sorted_sort_key)
  show "set (subdirs (sort_key fst root)) = set (subdirs root)"
    by (simp add: subdirs_def)
  show "length (subdirs (sort_key fst root)) = length (subdirs root)"
    by (simp add: subdirs_def filter_sort)
qed

lemma sorted_hd_Min:
  fixes xs :: "'a::linorder list"
  shows "sorted xs \<Longrightarrow> xs \<noteq> [] \<Longrightarrow> hd xs = Min (set xs)"
  by (cases xs) (auto intro!: Min_eqI [symmetric])

text \<open>
  C8. For a corpus directory (entries with distinct names), when the loader returns: the
  label mapping pairs the names of the subdirectories, in lexicographic order, with
  0, 1, 2, ..., so the smallest name has id 0; the texts and the label ids have the same
  length, and together they are, directory after directory in that order, the stripped
  texts of the directory's digit-named files (in lexicographic order of their names), each
  with the directory's id. The loader returns whenever every digit-named entry of every
  subdirectory is a file. For a corpus with the one subdirectory \<open>label_name\<close> the label
  mapping is \<open>{label_name: 0}\<close>.
\<close>

theorem load_corpus_labels:
  assumes "distinct (map fst root)"
  shows "(load_corpus root = Inr s \<longrightarrow>
            labels_index s = zip (subdirs (sort_key fst root)) [0..<length (subdirs root)]
          \<and> sorted (subdirs (sort_key fst root))
          \<and> set (subdirs (sort_key fst root)) = set (subdirs root)
          \<and> (subdirs root \<noteq> [] \<longrightarrow> map_of (labels_index s) (Min (set (subdirs root))) = Some 0)
          \<and> length (texts s) = length (labels s)
          \<and> zip (texts s) (labels s) = samples 0 (sort_key fst root))
     \<and> (readable root \<longrightarrow> (\<exists>s'. load_corpus root = Inr s'))
     \<and> (load_corpus [(label_name, Dir files)] = Inr s1 \<longrightarrow> labels_index s1 = [(label_name, 0)])"
proof -
  let ?s0 = "\<lparr>texts = [], labels_index = [], labels = []\<rparr>"
  have result: "labels_index s' = zip (subdirs (sort_key fst r)) [0..<length (subdirs r)]
      \<and> texts s' = map fst (samples 0 (sort_key fst r))
      \<and> labels s' = map snd (samples 0 (sort_key fst r))"
    if run: "load_corpus r = Inr s'" and dist: "distinct (map fst r)" for r s'
  proof -
    from run have "load_dirs (sort_key fst r) ?s0 = Inr s'" by (simp add: load_corpus_def)
    moreover have "distinct (map fst (sort_key fst r))"
      using dist by (simp add: distinct_map)
    moreover have "fst ` set (sort_key fst r) \<inter> fst ` set (labels_index ?s0) = {}" by simp
    ultimately show ?thesis
      using load_dirs_result [of "sort_key fst r" ?s0 s'] by (simp add: subdirs_sort(3))
  qed
  have first: "labels_index s = zip (subdirs (sort_key fst root)) [0..<length (subdirs root)]
          \<and> sorted (subdirs (sort_key fst root))
          \<and> set (subdirs (sort_key fst root)) = set (subdirs root)
          \<and> (subdirs root \<noteq> [] \<longrightarrow> map_of (labels_index s) (Min (set (subdirs root))) = Some 0)
          \<and> length (texts s) = length (labels s)
          \<and> zip (texts s) (labels s) = samples 0 (sort_key fst root)"
    if run: "load_corpus root = Inr s"
  proof -
    let ?names = "subdirs (sort_key fst root)"
    from result [OF run assms] have li: "labels_index s = zip ?names [0..<length (subdirs root)]"
      and tx: "texts s = map fst (samples 0 (sort_key fst root))"
      and lb: "labels s = map snd (samples 0 (sort_key fst root))" by simp_all
    have smallest: "map_of (labels_index s) (Min (set (subdirs root))) = Some 0"
      if ne: "subdirs root \<noteq> []"
    proof -
      from ne subdirs_sort(3) [of root] obtain name names where nm: "?names = name # names"
        by (cases ?names) auto
      from ne have "0 < length (subdirs root)" by simp
      then have "[0..<length (subdirs root)] = 0 # [1..<length (subdirs root)]"
        by (simp add: upt_rec)
      with li nm have "map_of (labels_index s) name = Some 0" by simp
      moreover have "name = Min (set (subdirs root))"
      proof -
        from nm have "hd ?names = name" and "?names \<noteq> []" by simp_all
        with sorted_hd_Min [OF subdirs_sort(1) [of root]]
        have "name = Min (set ?names)" by simp
        then show ?thesis by (simp only: subdirs_sort(2))
      qed
      ultimately show ?thesis by simp
    qed
    from tx lb have "length (texts s) = length (labels s)" by simp
    moreover from tx lb have "zip (texts s) (labels s) = samples 0 (sort_key fst root)"
      by (simp add: zip_map_fst_snd)
    ultimately show ?thesis using li smallest subdirs_sort(1,2) by blast
  qed
  have total: "\<exists>s'. load_corpus root = Inr s'" if "readable root"
    using that load_dirs_readable [of "sort_key fst root" ?s0]
    by (simp add: load_corpus_def readable_sort)
  have single: "labels_index s1 = [(label_name, 0)]"
    if run: "load_corpus [(label_name, Dir files)] = Inr s1"
    using result [OF run] by (simp add: subdirs_simps)
  from first total single show ?thesis by blast
qed

theorem load_corpus_labels_witness:
  "distinct (map fst
      [(''sci.space'', Dir [(''10'', File ''a''), (''9'', File (''h'' @ [newline, newline] @ ''b'')),
                            (''README'', File ''r'')]),
       (''alt.atheism'', Dir [(''1'', File ''x'')]),
       (''notes.txt'', File ''n'')])
   \<and> load_corpus
      [(''sci.space'', Dir [(''10'', File ''a''), (''9'', File (''h'' @ [newline, newline] @ ''b'')),
                            (''README'', File ''r'')]),
       (''alt.atheism'', Dir [(''1'', File ''x'')]),
       (''notes.txt'', File ''n'')]
     = Inr \<lparr>texts = [''x'', ''a'', [newline, newline] @ ''b''],
            labels_index = [(''alt.atheism'', 0), (''sci.space'', 1)],
            labels = [0, 1, 1]\<rparr>
   \<and> zip [''x'', ''a'', [newline, newline] @ ''b''] [0, 1, 1]
     = samples 0 (sort_key fst
      [(''sci.space'', Dir [(''10'', File ''a''), (''9'', File (''h'' @ [newline, newline] @ ''b'')),
                            (''README'', File ''r'')]),
       (''alt.atheism'', Dir [(''1'', File ''x'')]),
       (''notes.txt'', File ''n'')])
   \<and> load_corpus [(''sci.space'', Dir [(''10'', File ''a'')])]
     = Inr \<lparr>texts = [''a''], labels_index = [(''sci.space'', 0)], labels = [0]\<rparr>"
proof -
  let ?root = "[(''sci.space'', Dir [(''10'', File ''a''), (''9'', File (''h'' @ [newline, newline] @ ''b'')),
                            (''README'', File ''r'')]),
       (''alt.atheism'', Dir [(''1'', File ''x'')]),
       (''notes.txt'', File ''n'')]"
  let ?s = "\<lparr>texts = [''x'', ''a'', [newline, newline] @ ''b''],
            labels_index = [(''alt.atheism'', 0), (''sci.space'', 1 :: nat)],
            labels = [0, 1, 1 :: nat]\<rparr>"
  let ?one = "\<lparr>texts = [''a''], labels_index = [(''sci.space'', 0 :: nat)], labels = [0 :: nat]\<rparr>"
  have dist: "distinct (map fst ?root)" by simp
  have run: "load_corpus ?root = Inr ?s"
    by (simp add: load_corpus_def isdigit_def strip_header_def str_find_def newline_def)
  have run1: "load_corpus [(''sci.space'', Dir [(''10'', File ''a'')])] = Inr ?one"
    by (simp add: load_corpus_def isdigit_def strip_header_def str_find_def newline_def)
  from load_corpus_labels [OF dist, of ?s "''sci.space''" "[(''10'', File ''a'')]" ?one] run run1
  have "zip (texts ?s) (labels ?s) = samples 0 (sort_key fst ?root)"
    and "labels_index ?one = [(''sci.space'', 0)]"
    by blast+
  with dist run run1 show ?thesis by simp
qed

subsection \<open>Vocabulary builder and sequence encoder\<close>

lemma first_seen_set: "set (first_seen ws) = set ws"
  by (induction ws) auto

lemma first_seen_distinct: "distinct (first_seen ws)"
  by (induction ws) (auto simp: first_seen_set)

lemma first_seen_snoc:
  "first_seen (ws @ [w]) = (if w \<in> set ws then first_seen ws else first_seen ws @ [w])"
  by (induction ws) (auto simp: first_seen_set)

lemma count_word_keys:
  "map fst (count_word w kvs) = (if w \<in> fst ` set kvs then map fst kvs else map fst kvs @ [w])"
proof (induction kvs)
  case Nil
  show ?case by simp
next
  case (Cons a kvs)
  obtain w' c where a: "a = (w', c)" by (cases a)
  show ?case
  proof (cases "w' = w")
    case True
    with a show ?thesis by simp
  next
    case False
    with a Cons show ?thesis by (cases "w \<in> fst ` set kvs") auto
  qed
qed

lemma count_word_lookup:
  "distinct (map fst kvs) \<Longrightarrow>
   map_of (count_word w kvs) = (map_of kvs)(w \<mapsto> (case map_of kvs w of None \<Rightarrow> 1 | Some c \<Rightarrow> Suc c))"
proof (induction kvs)
  case Nil
  then show ?case by simp
next
  case (Cons a kvs)
  obtain w' c where a: "a = (w', c)" by (cases a)
  show ?case
  proof (cases "w' = w")
    case True
    with a show ?thesis by (auto simp: fun_eq_iff)
  next
    case False
    with a Cons show ?thesis by (auto simp: fun_eq_iff)
  qed
qed

lemma word_counts_snoc: "word_counts (toks @ [w]) = count_word w (word_counts toks)"
  by (simp add: word_counts_def)

lemma word_counts_keys: "map fst (word_counts toks) = first_seen toks"
proof (induction toks rule: rev_induct)
  case Nil
  show ?case by (simp add: word_counts_def)
next
  case (snoc w toks)
  have "fst ` set (word_counts toks) = set toks"
    using snoc first_seen_set [of toks] by (metis set_map)
  with snoc show ?case
    by (simp add: word_counts_snoc count_word_keys first_seen_snoc)
qed

lemma word_counts_lookup:
  "map_of (word_counts toks) w = (if w \<in> set toks then Some (count_list toks w) else None)"
proof (induction toks arbitrary: w rule: rev_induct)
  case Nil
  show ?case by (simp add: word_counts_def)
next
  case (snoc x toks)
  have d: "distinct (map fst (word_counts toks))"
    by (simp add: word_counts_keys first_seen_distinct)
  show ?case
  proof (cases "w = x")
    case True
    with snoc.IH [of x] show ?thesis
      by (simp add: word_counts_snoc count_word_lookup [OF d] split: if_splits)
  next
    case False
    with snoc.IH [of w] show ?thesis
      by (simp add: word_counts_snoc count_word_lookup [OF d])
  qed
qed

lemma word_counts_count:
  "(w, c) \<in> set (word_counts toks) \<Longrightarrow> c = count_list toks w"
proof -
  assume m: "(w, c) \<in> set (word_counts toks)"
  have "distinct (map fst (word_counts toks))"
    by (simp add: word_counts_keys first_seen_distinct)
  with m have "map_of (word_counts toks) w = Some c" by simp
  then show ?thesis by (simp add: word_counts_lookup split: if_splits)
qed


lemma fit_on_texts_unfold:
  "fit_on_texts tokenize txts =
     zip (map fst (sort_key (\<lambda>(w, c). - int c) (word_counts (concat (map tokenize txts)))))
         [1..int (length (word_counts (concat (map tokenize txts))))]"
  by (simp add: fit_on_texts_def Let_def)

lemma fit_on_texts_fst:
  "map fst (fit_on_texts tokenize txts) =
     map fst (sort_key (\<lambda>(w, c). - int c) (word_counts (concat (map tokenize txts))))"
  by (simp add: fit_on_texts_unfold)

lemma fit_on_texts_length:
  "length (fit_on_texts tokenize txts) = length (word_counts (concat (map tokenize txts)))"
  by (simp add: fit_on_texts_unfold)

lemma fit_on_texts_snd:
  "map snd (fit_on_texts tokenize txts) = [1..int (length (fit_on_texts tokenize txts))]"
  by (simp add: fit_on_texts_unfold)

lemma counted_filter:
  "\<forall>(w, c') \<in> set xs. c' = cnt w \<Longrightarrow>
   filter (\<lambda>w. cnt w = c) (map fst xs) = map fst (filter (\<lambda>(w, c'). - int c' = - int c) xs)"
  by (induction xs) auto

lemma fit_on_texts_words:
  fixes tokenize txts
  defines "toks \<equiv> concat (map tokenize txts)"
  shows "distinct (map fst (fit_on_texts tokenize txts))"
    and "set (map fst (fit_on_texts tokenize txts)) = set toks"
    and "sorted_wrt (\<lambda>a b. count_list toks b \<le> count_list toks a)
           (map fst (fit_on_texts tokenize txts))"
    and "filter (\<lambda>w. count_list toks w = c) (map fst (fit_on_texts tokenize txts))
           = filter (\<lambda>w. count_list toks w = c) (first_seen toks)"
proof -
  let ?key = "\<lambda>(w, c). - int c"
  let ?wc = "word_counts toks"
  let ?S = "sort_key ?key ?wc"
  have fst_wi: "map fst (fit_on_texts tokenize txts) = map fst ?S"
    by (simp add: fit_on_texts_fst toks_def)
  have dwc: "distinct (map fst ?wc)"
    by (simp add: word_counts_keys first_seen_distinct)
  then have "distinct ?wc" and "inj_on fst (set ?wc)" by (simp_all add: distinct_map)
  then have "distinct (map fst ?S)" by (simp add: distinct_map)
  with fst_wi show "distinct (map fst (fit_on_texts tokenize txts))" by simp
  have "set (map fst ?S) = set (map fst ?wc)" by simp
  also have "\<dots> = set toks" by (simp only: word_counts_keys first_seen_set)
  finally show "set (map fst (fit_on_texts tokenize txts)) = set toks"
    by (simp only: fst_wi)
  have counted: "\<forall>(w, c') \<in> set ?S. c' = count_list toks w"
    using word_counts_count [of _ _ toks] by auto
  have "sorted (map ?key ?S)" by (rule sorted_sort_key)
  then have "sorted_wrt (\<lambda>x y. ?key x \<le> ?key y) ?S"
    by (simp add: sorted_wrt_map sorted_wrt_iff_nth_less)
  then have "sorted_wrt (\<lambda>x y. count_list toks (fst y) \<le> count_list toks (fst x)) ?S"
  proof (rule sorted_wrt_mono_rel [rotated])
    fix x y assume x: "x \<in> set ?S" and y: "y \<in> set ?S" and le: "?key x \<le> ?key y"
    obtain a b where xa: "x = (a, b)" by (cases x)
    obtain a' b' where ya: "y = (a', b')" by (cases y)
    from x xa have "b = count_list toks a" by (simp add: word_counts_count)
    moreover from y ya have "b' = count_list toks a'" by (simp add: word_counts_count)
    ultimately show "count_list toks (fst y) \<le> count_list toks (fst x)"
      using le xa ya by simp
  qed
  then show "sorted_wrt (\<lambda>a b. count_list toks b \<le> count_list toks a)
           (map fst (fit_on_texts tokenize txts))"
    by (simp add: fst_wi sorted_wrt_map)
  have counted': "\<forall>(w, c') \<in> set ?wc. c' = count_list toks w"
    using word_counts_count [of _ _ toks] by auto
  have "filter (\<lambda>w. count_list toks w = c) (map fst ?S)
      = map fst (filter (\<lambda>y. ?key y = - int c) ?S)"
    using counted_filter [OF counted, of c] by (simp add: case_prod_unfold)
  also have "\<dots> = map fst (filter (\<lambda>y. ?key y = - int c) ?wc)"
    by (simp only: sort_key_stable)
  also have "\<dots> = filter (\<lambda>w. count_list toks w = c) (map fst ?wc)"
    using counted_filter [OF counted', of c] by (simp add: case_prod_unfold)
  finally show "filter (\<lambda>w. count_list toks w = c) (map fst (fit_on_texts tokenize txts))
           = filter (\<lambda>w. count_list toks w = c) (first_seen toks)"
    by (simp only: fst_wi word_counts_keys)
qed

lemma fit_on_texts_is_vocabulary: "vocabulary (fit_on_texts tokenize txts)"
proof -
  have "sort (map snd (fit_on_texts tokenize txts))
      = [1..int (length (fit_on_texts tokenize txts))]"
    by (simp only: fit_on_texts_snd [of tokenize txts] sorted_sort_id [OF sorted_upto])
  with fit_on_texts_words(1) [of tokenize txts] show ?thesis
    by (simp add: vocabulary_def)
qed

lemma texts_to_sequence_below:
  "i \<in> set (texts_to_sequence tokenize wi N txt) \<Longrightarrow> i < int N"
  by (simp add: texts_to_sequence_def)

text \<open>
  C7. The vocabulary mapping built from a corpus is a vocabulary in the sense of the data
  model: its words are distinct and its indices, in order, are 1, 2, ..., V, so index 0 is
  never assigned. Its words are all the distinct words of the corpus, whatever the budget
  \<open>N\<close> (which is not an argument of the builder). They come in descending order of
  frequency, and the words of one frequency come in the order of their first occurrence.
  A word whose index is \<open>\<ge> N\<close> is an entry of the mapping; its index is left out when a
  text is encoded.
\<close>

theorem fit_on_texts_vocabulary:
  "vocabulary (fit_on_texts tokenize txts)
   \<and> map snd (fit_on_texts tokenize txts) = [1..int (length (fit_on_texts tokenize txts))]
   \<and> 0 \<notin> snd ` set (fit_on_texts tokenize txts)
   \<and> set (map fst (fit_on_texts tokenize txts)) = set (concat (map tokenize txts))
   \<and> length (fit_on_texts tokenize txts) = card (set (concat (map tokenize txts)))
   \<and> sorted_wrt (\<lambda>a b. count_list (concat (map tokenize txts)) b
                          \<le> count_list (concat (map tokenize txts)) a)
         (map fst (fit_on_texts tokenize txts))
   \<and> (\<forall>c. filter (\<lambda>w. count_list (concat (map tokenize txts)) w = c)
              (map fst (fit_on_texts tokenize txts))
           = filter (\<lambda>w. count_list (concat (map tokenize txts)) w = c)
              (first_seen (concat (map tokenize txts))))
   \<and> (\<forall>w i. (w, i) \<in> set (fit_on_texts tokenize txts) \<and> int N \<le> i \<longrightarrow>
          i \<notin> set (texts_to_sequence tokenize (fit_on_texts tokenize txts) N txt))"
proof -
  let ?wi = "fit_on_texts tokenize txts"
  let ?toks = "concat (map tokenize txts)"
  have voc: "vocabulary ?wi" by (rule fit_on_texts_is_vocabulary)
  have snd: "map snd ?wi = [1..int (length ?wi)]" by (rule fit_on_texts_snd)
  have "set (map snd ?wi) = {1..int (length ?wi)}" by (simp only: snd set_upto)
  then have zero: "0 \<notin> snd ` set ?wi" by (simp only: set_map [symmetric]) simp
  have words: "set (map fst ?wi) = set ?toks" by (rule fit_on_texts_words(2))
  have "card (set (map fst ?wi)) = length (map fst ?wi)"
    by (rule distinct_card) (rule fit_on_texts_words(1))
  with words have len: "length ?wi = card (set ?toks)" by simp
  have dropped: "i \<notin> set (texts_to_sequence tokenize ?wi N txt)" if "int N \<le> i" for i
    using that texts_to_sequence_below [of i tokenize ?wi N] by auto
  have desc: "sorted_wrt (\<lambda>a b. count_list ?toks b \<le> count_list ?toks a) (map fst ?wi)"
    by (rule fit_on_texts_words(3))
  have ties: "filter (\<lambda>w. count_list ?toks w = c) (map fst ?wi)
      = filter (\<lambda>w. count_list ?toks w = c) (first_seen ?toks)" for c
    by (rule fit_on_texts_words(4))
  from voc snd zero words len desc ties dropped
  show ?thesis by blast
qed

theorem fit_on_texts_vocabulary_witness:
  "fit_on_texts str_split [''b a a c'', ''c d b e'']
     = [(''b'', 1), (''a'', 2), (''c'', 3), (''d'', 4), (''e'', 5)]
   \<and> vocabulary [(''b'', 1), (''a'', 2), (''c'', 3), (''d'', 4), (''e'', 5)]
   \<and> (''c'', 3) \<in> set (fit_on_texts str_split [''b a a c'', ''c d b e''])
   \<and> int 3 \<le> 3
   \<and> 3 \<notin> set (texts_to_sequence str_split
        (fit_on_texts str_split [''b a a c'', ''c d b e'']) 3 ''a c'')
   \<and> texts_to_sequence str_split
        (fit_on_texts str_split [''b a a c'', ''c d b e'']) 3 ''a c'' = [2]"
proof -
  let ?txts = "[''b a a c'', ''c d b e'']"
  have sp: "str_split ''b a a c'' = [''b'', ''a'', ''a'', ''c'']"
    "str_split ''c d b e'' = [''c'', ''d'', ''b'', ''e'']"
    "str_split ''a c'' = [''a'', ''c'']"
    by (simp_all add: str_split_def isspace_def)
  have wi: "fit_on_texts str_split ?txts
      = [(''b'', 1), (''a'', 2), (''c'', 3), (''d'', 4), (''e'', 5)]"
    by (simp add: fit_on_texts_def word_counts_def sp Let_def upto.simps)
  have mem: "(''c'', 3) \<in> set (fit_on_texts str_split ?txts)" by (simp add: wi)
  have seq: "texts_to_sequence str_split (fit_on_texts str_split ?txts) 3 ''a c'' = [2]"
    by (simp add: wi texts_to_sequence_def sp List.map_filter_simps)
  from fit_on_texts_vocabulary [of str_split ?txts 3 "''a c''"] mem
  have "vocabulary (fit_on_texts str_split ?txts)"
    and "3 \<notin> set (texts_to_sequence str_split (fit_on_texts str_split ?txts) 3 ''a c'')"
    by auto
  with wi mem seq show ?thesis by simp
qed

lemma pad_sequence_length: "length (pad_sequence L xs) = L"
  by (simp add: pad_sequence_def)

lemma pad_sequence_set: "set (pad_sequence L xs) \<subseteq> insert 0 (set xs)"
  by (auto simp: pad_sequence_def dest: in_set_dropD)

lemma texts_to_sequence_range:
  assumes "vocabulary wi" and "i \<in> set (texts_to_sequence tokenize wi N t)"
  shows "1 \<le> i \<and> i < int N"
proof -
  from assms(2) have lt: "i < int N"
    and "i \<in> set (List.map_filter (map_of wi) (tokenize t))"
    by (simp_all add: texts_to_sequence_def)
  then obtain w where "map_of wi w = Some i"
    by (auto simp: List.map_filter_def)
  then have "(w, i) \<in> set wi" by (rule map_of_SomeD)
  from vocabulary_bounds [OF assms(1) this] lt show ?thesis by simp
qed

text \<open>
  C3. Every encoded sequence has length exactly \<open>L\<close>. With a vocabulary mapping and a
  budget \<open>N > 0\<close> every entry of it lies in \<open>[0, N)\<close>; with the notebook's constants an
  encoded text is 1000 integers, each in \<open>[0, 20000)\<close>.
\<close>

theorem encode_length_and_range:
  "length (encode tokenize wi N L t) = L
   \<and> (vocabulary wi \<and> 0 < N \<longrightarrow>
        (\<forall>x \<in> set (encode tokenize wi N L t). 0 \<le> x \<and> x < int N))
   \<and> (vocabulary wi \<longrightarrow>
        length (encode tokenize wi MAX_NUM_WORDS MAX_SEQUENCE_LENGTH t) = 1000
        \<and> (\<forall>x \<in> set (encode tokenize wi MAX_NUM_WORDS MAX_SEQUENCE_LENGTH t).
              0 \<le> x \<and> x < 20000))"
proof -
  have len: "length (encode tokenize wi n l t) = l" for n l
    by (simp add: encode_def pad_sequence_length)
  have range: "0 \<le> x \<and> x < int n"
    if voc: "vocabulary wi" and pos: "0 < n" and x: "x \<in> set (encode tokenize wi n l t)"
    for n l x
  proof -
    from x pad_sequence_set [of l "texts_to_sequence tokenize wi n t"]
    have "x = 0 \<or> x \<in> set (texts_to_sequence tokenize wi n t)"
      by (auto simp: encode_def)
    then show ?thesis
    proof
      assume "x = 0"
      with pos show ?thesis by simp
    next
      assume "x \<in> set (texts_to_sequence tokenize wi n t)"
      from texts_to_sequence_range [OF voc this] show ?thesis by simp
    qed
  qed
  have fixed: "length (encode tokenize wi MAX_NUM_WORDS MAX_SEQUENCE_LENGTH t) = 1000
        \<and> (\<forall>x \<in> set (encode tokenize wi MAX_NUM_WORDS MAX_SEQUENCE_LENGTH t).
              0 \<le> x \<and> x < 20000)"
    if voc: "vocabulary wi"
  proof -
    have "0 < MAX_NUM_WORDS" by (simp add: MAX_NUM_WORDS_def)
    from range [OF voc this]
    have "\<forall>x \<in> set (encode tokenize wi MAX_NUM_WORDS MAX_SEQUENCE_LENGTH t).
        0 \<le> x \<and> x < int MAX_NUM_WORDS" by blast
    then show ?thesis
      by (simp add: len MAX_NUM_WORDS_def MAX_SEQUENCE_LENGTH_def)
  qed
  from len range fixed show ?thesis by blast
qed

theorem encode_length_and_range_witness:
  "vocabulary [(''b'', 1), (''a'', 2), (''c'', 3)]
   \<and> (0::nat) < 3
   \<and> encode str_split [(''b'', 1), (''a'', 2), (''c'', 3)] 3 5 ''a b c d'' = [0, 0, 0, 2, 1]
   \<and> list_all (\<lambda>x. 0 \<le> x \<and> x < 3)
        (encode str_split [(''b'', 1), (''a'', 2), (''c'', 3)] 3 5 ''a b c d'')
   \<and> length (encode str_split [(''b'', 1), (''a'', 2), (''c'', 3)]
        MAX_NUM_WORDS MAX_SEQUENCE_LENGTH ''a b c d'') = 1000"
proof -
  let ?wi = "[(''b'', 1), (''a'', 2), (''c'', 3 :: int)]"
  have voc: "vocabulary ?wi" by (simp add: vocabulary_def upto.simps)
  have sp: "str_split ''a b c d'' = [''a'', ''b'', ''c'', ''d'']"
    by (simp add: str_split_def isspace_def)
  have run: "encode str_split ?wi 3 5 ''a b c d'' = [0, 0, 0, 2, 1]"
    by (simp add: encode_def texts_to_sequence_def pad_sequence_def sp List.map_filter_simps
        numeral_eq_Suc)
  from encode_length_and_range [of str_split ?wi 3 5 "''a b c d''"] voc
  have "\<forall>x \<in> set (encode str_split ?wi 3 5 ''a b c d''). 0 \<le> x \<and> x < int 3"
    and "length (encode str_split ?wi MAX_NUM_WORDS MAX_SEQUENCE_LENGTH ''a b c d'') = 1000"
    by simp_all
  then have "list_all (\<lambda>x. 0 \<le> x \<and> x < 3) (encode str_split ?wi 3 5 ''a b c d'')"
    and "length (encode str_split ?wi MAX_NUM_WORDS MAX_SEQUENCE_LENGTH ''a b c d'') = 1000"
    by (simp_all add: list_all_iff)
  with voc run show ?thesis by simp
qed

text \<open>
  C4. A sequence shorter than \<open>L\<close> is padded with 0 on the left; of a sequence longer than
  \<open>L\<close> exactly the last \<open>L\<close> entries are kept, so entry \<open>j\<close> of the result is entry
  \<open>k - L + j\<close> of the sequence. A sequence of 1500 entries encoded with \<open>L = 1000\<close> keeps
  its entries 500..1499: of the sequence 0, 1, ..., 1499 it keeps 500, ..., 1499.
\<close>

theorem pad_sequence_policy:
  "(length xs < L \<longrightarrow> pad_sequence L xs = replicate (L - length xs) 0 @ xs)
   \<and> (L < length xs \<longrightarrow>
        pad_sequence L xs = drop (length xs - L) xs
        \<and> (\<forall>j<L. pad_sequence L xs ! j = xs ! (length xs - L + j)))
   \<and> (length xs = 1500 \<longrightarrow>
        pad_sequence MAX_SEQUENCE_LENGTH xs = drop 500 xs
        \<and> (\<forall>j<1000. pad_sequence MAX_SEQUENCE_LENGTH xs ! j = xs ! (500 + j)))
   \<and> pad_sequence MAX_SEQUENCE_LENGTH (map int [0..<1500]) = map int [500..<1500]
   \<and> encode tokenize wi N L t = pad_sequence L (texts_to_sequence tokenize wi N t)"
proof -
  have short: "pad_sequence L xs = replicate (L - length xs) 0 @ xs" if "length xs < L"
    using that by (simp add: pad_sequence_def)
  have long: "pad_sequence l ys = drop (length ys - l) ys
      \<and> (\<forall>j<l. pad_sequence l ys ! j = ys ! (length ys - l + j))"
    if "l < length ys" for l ys
    using that by (simp add: pad_sequence_def)
  have fixed: "pad_sequence MAX_SEQUENCE_LENGTH xs = drop 500 xs
      \<and> (\<forall>j<1000. pad_sequence MAX_SEQUENCE_LENGTH xs ! j = xs ! (500 + j))"
    if "length xs = 1500"
    using that long [of 1000 xs] by (simp add: MAX_SEQUENCE_LENGTH_def)
  have "length (map int [0..<1500]) = 1500" by (simp del: upt_rec_numeral)
  then have "pad_sequence 1000 (map int [0..<1500]) = drop 500 (map int [0..<1500])"
    using long [of 1000 "map int [0..<1500]"] by (simp del: upt_rec_numeral)
  also have "\<dots> = map int [500..<1500]" by (simp add: drop_map del: upt_rec_numeral)
  finally have example: "pad_sequence MAX_SEQUENCE_LENGTH (map int [0..<1500]) = map int [500..<1500]"
    by (simp add: MAX_SEQUENCE_LENGTH_def del: upt_rec_numeral)
  have enc: "encode tokenize wi N L t = pad_sequence L (texts_to_sequence tokenize wi N t)"
    by (simp add: encode_def)
  from short long [of L xs] fixed example enc show ?thesis by blast
qed

theorem pad_sequence_policy_witness:
  "length [1, 2, 3 :: int] < 5
   \<and> pad_sequence 5 [1, 2, 3] = [0, 0, 1, 2, 3]
   \<and> 2 < length [1, 2, 3, 4, 5 :: int]
   \<and> pad_sequence 2 [1, 2, 3, 4, 5] = [4, 5]
   \<and> length (map int [0..<1500]) = 1500
   \<and> pad_sequence MAX_SEQUENCE_LENGTH (map int [0..<1500]) ! 0 = 500"
proof -
  have s: "length [1, 2, 3 :: int] < 5" and g: "2 < length [1, 2, 3, 4, 5 :: int]"
    by simp_all
  from pad_sequence_policy [of "[1, 2, 3]" 5] s
  have "pad_sequence 5 [1, 2, 3] = replicate (5 - length [1, 2, 3 :: int]) 0 @ [1, 2, 3]"
    by blast
  then have a: "pad_sequence 5 [1, 2, 3] = [0, 0, 1, 2, 3]" by (simp add: numeral_eq_Suc)
  from pad_sequence_policy [of "[1, 2, 3, 4, 5]" 2] g
  have "pad_sequence 2 [1, 2, 3, 4, 5] = drop (length [1, 2, 3, 4, 5 :: int] - 2) [1, 2, 3, 4, 5]"
    by blast
  then have b: "pad_sequence 2 [1, 2, 3, 4, 5] = [4, 5]" by (simp add: numeral_eq_Suc)
  have l: "length (map int [0..<1500]) = 1500" by (simp del: upt_rec_numeral)
  from pad_sequence_policy [of "map int [0..<1500]" 0] l
  have "\<forall>j<1000. pad_sequence MAX_SEQUENCE_LENGTH (map int [0..<1500]) ! j
      = map int [0..<1500] ! (500 + j)" by blast
  then have "pad_sequence MAX_SEQUENCE_LENGTH (map int [0..<1500]) ! 0 = map int [0..<1500] ! 500"
    by (simp del: upt_rec_numeral)
  then have c: "pad_sequence MAX_SEQUENCE_LENGTH (map int [0..<1500]) ! 0 = 500"
    by (simp del: upt_rec_numeral)
  from s g a b l c show ?thesis by blast
qed

end
